theory Spec2Isabelle
  imports Main
begin

section \<open>Constants and the position\<close>

text \<open>
  Embedding of \<^verbatim>\<open>two_flags.py\<close>. Python strings are lists of characters; the
  character type holds the code points below 256, so that a single character is
  accepted by Python's \<^verbatim>\<open>int\<close> exactly when it is one of \<^verbatim>\<open>0\<close> .. \<^verbatim>\<open>9\<close>.
  Python integers are \<^typ>\<open>int\<close>. Every exception the code can raise is a
  value of \<open>error\<close>; \<open>NonLatin1\<close> marks the one place where Python would
  build a character that the character type cannot hold, and \<open>TypeError\<close> a store
  that does not hold the objects the class builds.
\<close>

datatype error = IndexError | ValueError | TimeoutError | TypeError | NonLatin1

definition BOARD_SIZE :: int where "BOARD_SIZE = 8"
definition WHITE :: char where "WHITE = CHR ''W''"
definition BLACK :: char where "BLACK = CHR ''B''"
definition EMPTY :: char where "EMPTY = CHR ''.''"
definition PAWN_VALUE :: int where "PAWN_VALUE = 100"
definition WIN_VALUE :: int where "WIN_VALUE = 10000"

type_synonym move = "int \<times> int \<times> int \<times> int"

record GameState =
  board :: "char list list"
  current_player :: char
  en_passant_target :: "(int \<times> int) option"
  move_history :: "move list"

definition empty_board :: "char list list" where
  "empty_board = replicate 8 (replicate 8 EMPTY)"

definition GameState_init :: GameState where
  "GameState_init = \<lparr>board = empty_board, current_player = WHITE,
     en_passant_target = None, move_history = []\<rparr>"

text \<open>The class keeps its board at eight rows of eight cells.\<close>

definition wf_board :: "char list list \<Rightarrow> bool" where
  "wf_board b = (length b = 8 \<and> list_all (\<lambda>row. length row = 8) b)"

definition wf_state :: "GameState \<Rightarrow> bool" where
  "wf_state s = wf_board (board s)"

text \<open>\<^verbatim>\<open>self.board[row][col]\<close> at an index pair already checked to be in range.\<close>

definition cell :: "GameState \<Rightarrow> int \<Rightarrow> int \<Rightarrow> char" where
  "cell s col row = board s ! nat row ! nat col"

definition set_cell :: "char list list \<Rightarrow> int \<Rightarrow> int \<Rightarrow> char \<Rightarrow> char list list" where
  "set_cell b col row v = b[nat row := (b ! nat row)[nat col := v]]"

definition setup_initial_position :: "GameState \<Rightarrow> GameState" where
  "setup_initial_position s =
     (let b1 = fold (\<lambda>col b. set_cell b col 1 WHITE) [0..7] (board s);
          b2 = fold (\<lambda>col b. set_cell b col 6 BLACK) [0..7] b1
      in s\<lparr>board := b2\<rparr>)"

definition is_valid_pos :: "int \<Rightarrow> int \<Rightarrow> bool" where
  "is_valid_pos col row = (0 \<le> col \<and> col < BOARD_SIZE \<and> 0 \<le> row \<and> row < BOARD_SIZE)"

definition get_all_pieces :: "GameState \<Rightarrow> char \<Rightarrow> (int \<times> int) list" where
  "get_all_pieces s color =
     [(col, row). row \<leftarrow> [0..7], col \<leftarrow> [0..7], cell s col row = color]"

subsection \<open>Move generation\<close>

text \<open>The body of the loop over the mover's pawns: the moves of the pawn at \<open>(col, row)\<close>.\<close>

definition capture_moves :: "GameState \<Rightarrow> int \<Rightarrow> int \<Rightarrow> int \<Rightarrow> char \<Rightarrow> int \<Rightarrow> move list" where
  "capture_moves s col row direction opponent dcol =
     (let new_col = col + dcol; new_row = row + direction in
      if is_valid_pos new_col new_row then
        (let target = cell s new_col new_row in
         if target = opponent then [(col, row, new_col, new_row)]
         else if en_passant_target s = Some (new_col, new_row) then
           (if cell s new_col row = opponent then [(col, row, new_col, new_row)] else [])
         else [])
      else [])"

definition pawn_moves :: "GameState \<Rightarrow> int \<times> int \<Rightarrow> move list" where
  "pawn_moves s p =
     (case p of (col, row) \<Rightarrow>
      let player = current_player s;
          direction = (if player = WHITE then 1 else - 1);
          start_row = (if player = WHITE then 1 else 6);
          opponent = (if player = WHITE then BLACK else WHITE);
          new_row = row + direction
      in (if is_valid_pos col new_row \<and> cell s col new_row = EMPTY then
            (col, row, col, new_row) #
            (if row = start_row then
               (let new_row2 = row + 2 * direction in
                if is_valid_pos col new_row2 \<and> cell s col new_row2 = EMPTY
                then [(col, row, col, new_row2)] else [])
             else [])
          else [])
         @ concat (map (capture_moves s col row direction opponent) [- 1, 1]))"

definition generate_moves :: "GameState \<Rightarrow> move list" where
  "generate_moves s = concat (map (pawn_moves s) (get_all_pieces s (current_player s)))"

subsection \<open>Applying a move\<close>

text \<open>
  Python list indexing: a negative index counts from the end, anything outside
  raises \<^verbatim>\<open>IndexError\<close>. \<^verbatim>\<open>make_move\<close> checks nothing, so its reads and
  writes are modelled with the failure written out.
\<close>

definition py_index :: "nat \<Rightarrow> int \<Rightarrow> nat option" where
  "py_index n i =
     (if 0 \<le> i \<and> i < int n then Some (nat i)
      else if - int n \<le> i \<and> i < 0 then Some (nat (int n + i))
      else None)"

definition board_get :: "char list list \<Rightarrow> int \<Rightarrow> int \<Rightarrow> error + char" where
  "board_get b row col =
     (case py_index (length b) row of
        None \<Rightarrow> Inl IndexError
      | Some r \<Rightarrow>
          (case py_index (length (b ! r)) col of
             None \<Rightarrow> Inl IndexError
           | Some c \<Rightarrow> Inr (b ! r ! c)))"

definition board_set :: "char list list \<Rightarrow> int \<Rightarrow> int \<Rightarrow> char \<Rightarrow> error + char list list" where
  "board_set b row col v =
     (case py_index (length b) row of
        None \<Rightarrow> Inl IndexError
      | Some r \<Rightarrow>
          (case py_index (length (b ! r)) col of
             None \<Rightarrow> Inl IndexError
           | Some c \<Rightarrow> Inr (b[r := (b ! r)[c := v]])))"

definition make_move :: "GameState \<Rightarrow> move \<Rightarrow> error + GameState" where
  "make_move s move =
     (case move of (from_col, from_row, to_col, to_row) \<Rightarrow>
      (case board_get (board s) from_row from_col of
         Inl e \<Rightarrow> Inl e
       | Inr piece \<Rightarrow>
      (case (if en_passant_target s = Some (to_col, to_row)
             then board_set (board s) from_row to_col EMPTY
             else Inr (board s)) of
         Inl e \<Rightarrow> Inl e
       | Inr b1 \<Rightarrow>
      (case board_set b1 from_row from_col EMPTY of
         Inl e \<Rightarrow> Inl e
       | Inr b2 \<Rightarrow>
      (case board_set b2 to_row to_col piece of
         Inl e \<Rightarrow> Inl e
       | Inr b3 \<Rightarrow>
           Inr \<lparr>board = b3,
                current_player = (if current_player s = WHITE then BLACK else WHITE),
                en_passant_target =
                  (if \<bar>to_row - from_row\<bar> = 2
                   then Some (to_col, (from_row + to_row) div 2) else None),
                move_history = move_history s @ [move]\<rparr>)))))"

subsection \<open>Terminal positions\<close>

text \<open>The first loop of \<^verbatim>\<open>is_terminal\<close>, with its two early returns per file.\<close>

fun reached_end :: "GameState \<Rightarrow> int list \<Rightarrow> (bool \<times> char option) option" where
  "reached_end s [] = None"
| "reached_end s (col # cols) =
     (if cell s col 7 = WHITE then Some (True, Some WHITE)
      else if cell s col 0 = BLACK then Some (True, Some BLACK)
      else reached_end s cols)"

definition is_terminal :: "GameState \<Rightarrow> bool \<times> char option" where
  "is_terminal s =
     (case reached_end s [0..7] of
        Some r \<Rightarrow> r
      | None \<Rightarrow>
          (let white_pawns = length (get_all_pieces s WHITE);
               black_pawns = length (get_all_pieces s BLACK)
           in if white_pawns = 0 then (True, Some BLACK)
              else if black_pawns = 0 then (True, Some WHITE)
              else if length (generate_moves s) = 0
                then (True, Some (if current_player s = WHITE then BLACK else WHITE))
              else (False, None)))"

subsection \<open>Moves as text\<close>

definition ord :: "char \<Rightarrow> int" where
  "ord c = of_char c"

text \<open>\<^verbatim>\<open>chr\<close>: \<^verbatim>\<open>ValueError\<close> outside \<open>0 .. 0x10FFFF\<close>.\<close>

definition chr :: "int \<Rightarrow> error + char" where
  "chr n =
     (if n < 0 \<or> 1114111 < n then Inl ValueError
      else if n < 256 then Inr (char_of n)
      else Inl NonLatin1)"

fun str_nat :: "nat \<Rightarrow> string" where
  "str_nat n =
     (if n < 10 then [char_of (48 + n)]
      else str_nat (n div 10) @ [char_of (48 + n mod 10)])"

text \<open>\<^verbatim>\<open>str\<close> of an integer.\<close>

definition str :: "int \<Rightarrow> string" where
  "str i = (if i < 0 then CHR ''-'' # str_nat (nat (- i)) else str_nat (nat i))"

text \<open>\<^verbatim>\<open>int\<close> of a one-character string.\<close>

definition decimal_digit :: "char \<Rightarrow> bool" where
  "decimal_digit c = (48 \<le> ord c \<and> ord c \<le> 57)"

definition int_of_char :: "char \<Rightarrow> error + int" where
  "int_of_char c = (if decimal_digit c then Inr (ord c - 48) else Inl ValueError)"

definition move_to_string :: "move \<Rightarrow> error + string" where
  "move_to_string move =
     (case move of (from_col, from_row, to_col, to_row) \<Rightarrow>
      (case chr (ord CHR ''a'' + from_col) of
         Inl e \<Rightarrow> Inl e
       | Inr c1 \<Rightarrow>
      (case chr (ord CHR ''a'' + to_col) of
         Inl e \<Rightarrow> Inl e
       | Inr c2 \<Rightarrow> Inr ([c1] @ str (from_row + 1) @ [c2] @ str (to_row + 1)))))"

text \<open>\<open>Inr None\<close> is the \<^verbatim>\<open>None\<close> the code returns for a short string.\<close>

definition string_to_move :: "string \<Rightarrow> error + move option" where
  "string_to_move move_str =
     (if length move_str < 4 then Inr None
      else
        (let from_col = ord (move_str ! 0) - ord CHR ''a'' in
         case int_of_char (move_str ! 1) of
           Inl e \<Rightarrow> Inl e
         | Inr d1 \<Rightarrow>
         (let from_row = d1 - 1;
              to_col = ord (move_str ! 2) - ord CHR ''a'' in
          case int_of_char (move_str ! 3) of
            Inl e \<Rightarrow> Inl e
          | Inr d2 \<Rightarrow> Inr (Some (from_col, from_row, to_col, d2 - 1)))))"

subsection \<open>Positions from text\<close>

text \<open>\<^verbatim>\<open>str.split()\<close>: the maximal runs of characters that are not white space.\<close>

definition py_isspace :: "char \<Rightarrow> bool" where
  "py_isspace c = (ord c \<in> {9, 10, 11, 12, 13, 28, 29, 30, 31, 32, 133, 160})"

fun split_from :: "string \<Rightarrow> string \<Rightarrow> string list" where
  "split_from word [] = (if word = [] then [] else [word])"
| "split_from word (c # cs) =
     (if py_isspace c then (if word = [] then split_from [] cs else word # split_from [] cs)
      else split_from (word @ [c]) cs)"

definition split :: "string \<Rightarrow> string list" where
  "split s = split_from [] s"

text \<open>The loop over the tokens; \<^verbatim>\<open>int(piece[2])\<close> raises on a non-digit.\<close>

fun place_pieces :: "char list list \<Rightarrow> string list \<Rightarrow> error + char list list" where
  "place_pieces b [] = Inr b"
| "place_pieces b (piece # parts) =
     (if 3 \<le> length piece then
        (let color = piece ! 0;
             col = ord (piece ! 1) - ord CHR ''a''
         in case int_of_char (piece ! 2) of
              Inl e \<Rightarrow> Inl e
            | Inr d \<Rightarrow>
                (let row = d - 1 in
                 if 0 \<le> col \<and> col < 8 \<and> 0 \<le> row \<and> row < 8
                 then place_pieces (set_cell b col row color) parts
                 else place_pieces b parts))
      else place_pieces b parts)"

text \<open>\<^verbatim>\<open>parts[0]\<close> raises \<^verbatim>\<open>IndexError\<close> when the text holds no token.\<close>

definition setup_from_string :: "GameState \<Rightarrow> string \<Rightarrow> error + GameState" where
  "setup_from_string s setup_str =
     (case split setup_str of
        [] \<Rightarrow> Inl IndexError
      | p0 # rest \<Rightarrow>
          (case place_pieces empty_board (if p0 = ''Setup'' then rest else p0 # rest) of
             Inl e \<Rightarrow> Inl e
           | Inr b \<Rightarrow> Inr (s\<lparr>board := b\<rparr>)))"

section \<open>The evaluator\<close>

record Evaluator =
  advancement_weight :: int
  material_weight :: int
  passed_pawn_weight :: int
  center_weight :: int

definition Evaluator_init :: Evaluator where
  "Evaluator_init = \<lparr>advancement_weight = 10, material_weight = 100,
     passed_pawn_weight = 30, center_weight = 5\<rparr>"

text \<open>The \<^verbatim>\<open>while\<close> loop of \<^verbatim>\<open>is_passed_pawn\<close>, walking \<open>check_row\<close> off the board.\<close>

function passed_scan :: "GameState \<Rightarrow> int \<Rightarrow> char \<Rightarrow> int \<Rightarrow> bool" where
  "passed_scan s col color check_row =
     (let opponent = (if color = WHITE then BLACK else WHITE);
          direction = (if color = WHITE then 1 else - 1)
      in if 0 \<le> check_row \<and> check_row < 8 then
           (if list_ex (\<lambda>check_col. 0 \<le> check_col \<and> check_col < 8
                          \<and> cell s check_col check_row = opponent)
                 [col - 1, col, col + 1]
            then False
            else passed_scan s col color (check_row + direction))
         else True)"
  by pat_completeness auto
termination
  by (relation "measure (\<lambda>(s, col, color, check_row).
        if color = WHITE then nat (8 - check_row) else nat (check_row + 1))") auto

definition is_passed_pawn :: "GameState \<Rightarrow> int \<Rightarrow> int \<Rightarrow> char \<Rightarrow> bool" where
  "is_passed_pawn s col row color =
     passed_scan s col color (row + (if color = WHITE then 1 else - 1))"

fun my_pawns_loop :: "Evaluator \<Rightarrow> GameState \<Rightarrow> char \<Rightarrow> (int \<times> int) list \<Rightarrow> int \<Rightarrow> int" where
  "my_pawns_loop ev s maximizing_color [] score = score"
| "my_pawns_loop ev s maximizing_color ((col, row) # pawns) score =
     (let advancement = (if maximizing_color = WHITE then row else 7 - row);
          score1 = score + advancement * advancement_weight ev;
          score2 = (if is_passed_pawn s col row maximizing_color
                    then score1 + (passed_pawn_weight ev + advancement * 5) else score1);
          score3 = (if 2 \<le> col \<and> col \<le> 5 then score2 + center_weight ev else score2)
      in my_pawns_loop ev s maximizing_color pawns score3)"

fun opp_pawns_loop :: "Evaluator \<Rightarrow> GameState \<Rightarrow> char \<Rightarrow> (int \<times> int) list \<Rightarrow> int \<Rightarrow> int" where
  "opp_pawns_loop ev s opponent [] score = score"
| "opp_pawns_loop ev s opponent ((col, row) # pawns) score =
     (let advancement = (if opponent = WHITE then row else 7 - row);
          score1 = score - advancement * advancement_weight ev;
          score2 = (if is_passed_pawn s col row opponent
                    then score1 - (passed_pawn_weight ev + advancement * 5) else score1)
      in opp_pawns_loop ev s opponent pawns score2)"

definition evaluate :: "Evaluator \<Rightarrow> GameState \<Rightarrow> char \<Rightarrow> int" where
  "evaluate ev s maximizing_color =
     (case is_terminal s of (is_over, winner) \<Rightarrow>
      if is_over then
        (if winner = Some maximizing_color then WIN_VALUE
         else if winner \<noteq> None then - WIN_VALUE
         else 0)
      else
        (let opponent = (if maximizing_color = WHITE then BLACK else WHITE);
             my_pawns = get_all_pieces s maximizing_color;
             opp_pawns = get_all_pieces s opponent;
             score = (int (length my_pawns) - int (length opp_pawns)) * material_weight ev;
             score = my_pawns_loop ev s maximizing_color my_pawns score
         in opp_pawns_loop ev s opponent opp_pawns score))"

section \<open>The search engine\<close>

text \<open>
  Scores are Python integers, and the two floats \<^verbatim>\<open>float('-inf')\<close> and
  \<^verbatim>\<open>float('inf')\<close> that start the windows.
\<close>

datatype pynum = MInf | Fin int | PInf

instantiation pynum :: "{uminus, linorder}"
begin

fun less_eq_pynum :: "pynum \<Rightarrow> pynum \<Rightarrow> bool" where
  "less_eq_pynum MInf y = True"
| "less_eq_pynum (Fin i) MInf = False"
| "less_eq_pynum (Fin i) (Fin j) = (i \<le> j)"
| "less_eq_pynum (Fin i) PInf = True"
| "less_eq_pynum PInf MInf = False"
| "less_eq_pynum PInf (Fin j) = False"
| "less_eq_pynum PInf PInf = True"

definition less_pynum :: "pynum \<Rightarrow> pynum \<Rightarrow> bool" where
  "less_pynum x y = (x \<le> y \<and> \<not> y \<le> x)"

fun uminus_pynum :: "pynum \<Rightarrow> pynum" where
  "uminus_pynum MInf = PInf"
| "uminus_pynum (Fin i) = Fin (- i)"
| "uminus_pynum PInf = MInf"

instance
proof
  fix x y z :: pynum
  show "(x < y) = (x \<le> y \<and> \<not> y \<le> x)" by (simp add: less_pynum_def)
  show "x \<le> x" by (cases x) simp_all
  show "x \<le> y \<Longrightarrow> y \<le> z \<Longrightarrow> x \<le> z" by (cases x; cases y; cases z) simp_all
  show "x \<le> y \<Longrightarrow> y \<le> x \<Longrightarrow> x = y" by (cases x; cases y) simp_all
  show "x \<le> y \<or> y \<le> x" by (cases x; cases y) auto
qed

end

text \<open>
  The engine object. Its time fields are floats read from the wall clock; the model
  keeps the number of clock readings made so far in this call, and takes as
  \<open>clock k\<close> whether reading number \<open>k\<close> finds the deadline passed.
\<close>

record TwoFlagsAI =
  color :: char
  evaluator :: Evaluator
  nodes_searched :: int
  max_depth_reached :: int
  clock_reads :: nat

definition TwoFlagsAI_init :: "char \<Rightarrow> TwoFlagsAI" where
  "TwoFlagsAI_init c = \<lparr>color = c, evaluator = Evaluator_init, nodes_searched = 0,
     max_depth_reached = 0, clock_reads = 0\<rparr>"

definition should_stop :: "(nat \<Rightarrow> bool) \<Rightarrow> TwoFlagsAI \<Rightarrow> bool \<times> TwoFlagsAI" where
  "should_stop clock ai = (clock (clock_reads ai), ai\<lparr>clock_reads := Suc (clock_reads ai)\<rparr>)"

subsection \<open>Move ordering\<close>

text \<open>The moves handed to \<^verbatim>\<open>order_moves\<close> are generated ones, so its read is in range.\<close>

definition move_score :: "GameState \<Rightarrow> move \<Rightarrow> int" where
  "move_score s move =
     (case move of (from_col, from_row, to_col, to_row) \<Rightarrow>
      let opponent = (if current_player s = WHITE then BLACK else WHITE) in
        (if cell s to_col to_row = opponent then 100 else 0)
      + (if en_passant_target s = Some (to_col, to_row) then 100 else 0)
      + (if current_player s = WHITE then to_row * 5 else (7 - to_row) * 5)
      + (if 2 \<le> to_col \<and> to_col \<le> 5 then 3 else 0))"

text \<open>A stable sort, highest score first.\<close>

definition order_moves :: "GameState \<Rightarrow> move list \<Rightarrow> move list" where
  "order_moves s moves =
     map snd (sort_key (\<lambda>x. - fst x) (map (\<lambda>move. (move_score s move, move)) moves))"

subsection \<open>Alpha-beta\<close>

text \<open>
  An exception leaves the engine's counters as they are, so every result comes with
  the engine. \<open>alpha_beta_loop\<close> is the \<^verbatim>\<open>for move in moves\<close> loop of
  \<^verbatim>\<open>alpha_beta\<close>, carrying \<open>alpha\<close> and \<open>best_score\<close>.
\<close>

function alpha_beta ::
    "(nat \<Rightarrow> bool) \<Rightarrow> TwoFlagsAI \<Rightarrow> GameState \<Rightarrow> int \<Rightarrow> pynum \<Rightarrow> pynum \<Rightarrow> bool
      \<Rightarrow> (error + pynum) \<times> TwoFlagsAI"
  and alpha_beta_loop ::
    "(nat \<Rightarrow> bool) \<Rightarrow> TwoFlagsAI \<Rightarrow> GameState \<Rightarrow> int \<Rightarrow> pynum \<Rightarrow> pynum \<Rightarrow> bool
      \<Rightarrow> pynum \<Rightarrow> move list \<Rightarrow> (error + pynum) \<times> TwoFlagsAI"
where
  "alpha_beta clock ai s depth alpha beta maximizing =
     (case should_stop clock (ai\<lparr>nodes_searched := nodes_searched ai + 1\<rparr>) of
        (stop, ai1) \<Rightarrow>
      if stop then (Inl TimeoutError, ai1)
      else
        (case is_terminal s of (is_over, winner) \<Rightarrow>
         if is_over then
           (if winner = Some (color ai1) then (Inr (Fin (WIN_VALUE - (50 - depth))), ai1)
            else if winner \<noteq> None then (Inr (Fin (- WIN_VALUE + (50 - depth))), ai1)
            else (Inr (Fin 0), ai1))
         else if depth \<le> 0 then (Inr (Fin (evaluate (evaluator ai1) s (color ai1))), ai1)
         else alpha_beta_loop clock ai1 s depth alpha beta maximizing MInf
                (order_moves s (generate_moves s))))"
| "alpha_beta_loop clock ai s depth alpha beta maximizing best_score [] =
     (Inr best_score, ai)"
| "alpha_beta_loop clock ai s depth alpha beta maximizing best_score (move # moves) =
     (case make_move s move of
        Inl e \<Rightarrow> (Inl e, ai)
      | Inr new_state \<Rightarrow>
          (case alpha_beta clock ai new_state (depth - 1) (- beta) (- alpha) (\<not> maximizing) of
             (Inl e, ai1) \<Rightarrow> (Inl e, ai1)
           | (Inr r, ai1) \<Rightarrow>
               (let score = - r;
                    best_score1 = max best_score score;
                    alpha1 = max alpha score
                in if beta \<le> alpha1 then (Inr best_score1, ai1)
                   else alpha_beta_loop clock ai1 s depth alpha1 beta maximizing
                          best_score1 moves)))"
  by pat_completeness auto
termination
  by (relation "measures
        [\<lambda>x. case x of
                Inl (clock, ai, s, depth, r) \<Rightarrow> 2 * nat (depth + 1)
              | Inr (clock, ai, s, depth, r) \<Rightarrow> 2 * nat depth + 1,
         \<lambda>x. case x of
                Inl r \<Rightarrow> 0
              | Inr (clock, ai, s, depth, alpha, beta, maximizing, best_score, moves) \<Rightarrow>
                  length moves]") auto

declare alpha_beta.simps [simp del]

subsection \<open>Root search and iterative deepening\<close>

text \<open>The loop of \<^verbatim>\<open>search_root\<close>: a clock reading per move, and no cutoff.\<close>

fun search_root_loop ::
    "(nat \<Rightarrow> bool) \<Rightarrow> TwoFlagsAI \<Rightarrow> GameState \<Rightarrow> int \<Rightarrow> pynum \<Rightarrow> pynum \<Rightarrow> move \<Rightarrow> pynum
      \<Rightarrow> move list \<Rightarrow> (error + move \<times> pynum) \<times> TwoFlagsAI" where
  "search_root_loop clock ai s depth alpha beta best_move best_score [] =
     (Inr (best_move, best_score), ai)"
| "search_root_loop clock ai s depth alpha beta best_move best_score (move # moves) =
     (case should_stop clock ai of (stop, ai1) \<Rightarrow>
      if stop then (Inl TimeoutError, ai1)
      else
        (case make_move s move of
           Inl e \<Rightarrow> (Inl e, ai1)
         | Inr new_state \<Rightarrow>
             (case alpha_beta clock ai1 new_state (depth - 1) (- beta) (- alpha) False of
                (Inl e, ai2) \<Rightarrow> (Inl e, ai2)
              | (Inr r, ai2) \<Rightarrow>
                  (let score = - r;
                       best_score1 = (if best_score < score then score else best_score);
                       best_move1 = (if best_score < score then move else best_move);
                       alpha1 = max alpha score
                   in search_root_loop clock ai2 s depth alpha1 beta best_move1
                        best_score1 moves))))"

definition search_root ::
    "(nat \<Rightarrow> bool) \<Rightarrow> TwoFlagsAI \<Rightarrow> GameState \<Rightarrow> int
      \<Rightarrow> (error + move option \<times> pynum) \<times> TwoFlagsAI" where
  "search_root clock ai s depth =
     (let moves = generate_moves s in
      if moves = [] then (Inr (None, Fin (- WIN_VALUE)), ai)
      else
        (let moves = order_moves s moves in
         case search_root_loop clock ai s depth MInf PInf (moves ! 0) MInf moves of
           (Inl e, ai1) \<Rightarrow> (Inl e, ai1)
         | (Inr (best_move, best_score), ai1) \<Rightarrow> (Inr (Some best_move, best_score), ai1)))"

text \<open>
  The loop \<^verbatim>\<open>for depth in range(1, 50)\<close> of \<^verbatim>\<open>get_best_move\<close>. Only
  \<^verbatim>\<open>TimeoutError\<close> is caught.
\<close>

fun deepening_loop ::
    "(nat \<Rightarrow> bool) \<Rightarrow> TwoFlagsAI \<Rightarrow> GameState \<Rightarrow> move \<Rightarrow> int list
      \<Rightarrow> (error + move) \<times> TwoFlagsAI" where
  "deepening_loop clock ai s best_move [] = (Inr best_move, ai)"
| "deepening_loop clock ai s best_move (depth # depths) =
     (case should_stop clock ai of (stop, ai1) \<Rightarrow>
      if stop then (Inr best_move, ai1)
      else
        (case search_root clock ai1 s depth of
           (Inl e, ai2) \<Rightarrow>
             (if e = TimeoutError then (Inr best_move, ai2) else (Inl e, ai2))
         | (Inr (move, score), ai2) \<Rightarrow>
             (let best_move1 = (case move of Some m \<Rightarrow> m | None \<Rightarrow> best_move);
                  ai3 = (case move of Some m \<Rightarrow> ai2\<lparr>max_depth_reached := depth\<rparr>
                           | None \<Rightarrow> ai2)
              in if Fin (WIN_VALUE - 100) \<le> score then (Inr best_move1, ai3)
                 else deepening_loop clock ai3 s best_move1 depths)))"

definition get_best_move ::
    "(nat \<Rightarrow> bool) \<Rightarrow> TwoFlagsAI \<Rightarrow> GameState \<Rightarrow> (error + move option) \<times> TwoFlagsAI" where
  "get_best_move clock ai s =
     (let ai0 = ai\<lparr>nodes_searched := 0, clock_reads := 0\<rparr>;
          moves = generate_moves s
      in if moves = [] then (Inr None, ai0)
         else if length moves = 1 then (Inr (Some (moves ! 0)), ai0)
         else
           (case deepening_loop clock ai0 s (moves ! 0) [1..49] of
              (Inl e, ai1) \<Rightarrow> (Inl e, ai1)
            | (Inr best_move, ai1) \<Rightarrow> (Inr (Some best_move), ai1)))"

subsection \<open>The full-width search the pruned one is compared with\<close>

text \<open>
  Negamax over the same ordered moves, with the terminal values and the leaf
  evaluation of \<open>alpha_beta\<close>, no window and no cutoff, and no clock.
\<close>

function full_width_negamax :: "char \<Rightarrow> Evaluator \<Rightarrow> GameState \<Rightarrow> int \<Rightarrow> error + pynum"
  and full_width_children ::
    "char \<Rightarrow> Evaluator \<Rightarrow> GameState \<Rightarrow> int \<Rightarrow> pynum \<Rightarrow> move list \<Rightarrow> error + pynum"
where
  "full_width_negamax c ev s depth =
     (case is_terminal s of (is_over, winner) \<Rightarrow>
      if is_over then
        (if winner = Some c then Inr (Fin (WIN_VALUE - (50 - depth)))
         else if winner \<noteq> None then Inr (Fin (- WIN_VALUE + (50 - depth)))
         else Inr (Fin 0))
      else if depth \<le> 0 then Inr (Fin (evaluate ev s c))
      else full_width_children c ev s depth MInf (order_moves s (generate_moves s)))"
| "full_width_children c ev s depth best_score [] = Inr best_score"
| "full_width_children c ev s depth best_score (move # moves) =
     (case make_move s move of
        Inl e \<Rightarrow> Inl e
      | Inr new_state \<Rightarrow>
          (case full_width_negamax c ev new_state (depth - 1) of
             Inl e \<Rightarrow> Inl e
           | Inr r \<Rightarrow> full_width_children c ev s depth (max best_score (- r)) moves))"
  by pat_completeness auto
termination
  by (relation "measures
        [\<lambda>x. case x of
                Inl (c, ev, s, depth) \<Rightarrow> 2 * nat (depth + 1)
              | Inr (c, ev, s, depth, r) \<Rightarrow> 2 * nat depth + 1,
         \<lambda>x. case x of
                Inl r \<Rightarrow> 0
              | Inr (c, ev, s, depth, best_score, moves) \<Rightarrow> length moves]") auto

declare full_width_negamax.simps [simp del]

definition full_width_root :: "char \<Rightarrow> Evaluator \<Rightarrow> GameState \<Rightarrow> int \<Rightarrow> error + pynum" where
  "full_width_root c ev s depth =
     (let moves = generate_moves s in
      if moves = [] then Inr (Fin (- WIN_VALUE))
      else full_width_children c ev s depth MInf (order_moves s moves))"

section \<open>The objects of a position, in a store\<close>

text \<open>
  \<^verbatim>\<open>make_move\<close> writes into a copy of the receiver. To state that the receiver stays
  as it was, the mutable objects of a position are placed in a store: each row of
  the board, the list of rows, the move history and the \<^verbatim>\<open>GameState\<close> object with
  its references. Strings and tuples are immutable and stay values. A new object
  takes the next free address.
\<close>

type_synonym addr = nat

datatype obj =
    RowList "char list"
  | BoardList "addr list"
  | MoveList "move list"
  | StateObj addr char "(int \<times> int) option" addr

record store =
  objs :: "addr \<Rightarrow> obj option"
  next_addr :: addr

definition alloc :: "store \<Rightarrow> obj \<Rightarrow> addr \<times> store" where
  "alloc h ob =
     (next_addr h, \<lparr>objs = (objs h)(next_addr h \<mapsto> ob), next_addr = Suc (next_addr h)\<rparr>)"

fun alloc_rows :: "store \<Rightarrow> char list list \<Rightarrow> addr list \<times> store" where
  "alloc_rows h [] = ([], h)"
| "alloc_rows h (r # rs) =
     (case alloc h (RowList r) of (a, h1) \<Rightarrow>
      case alloc_rows h1 rs of (as, h2) \<Rightarrow> (a # as, h2))"

fun read_rows :: "store \<Rightarrow> addr list \<Rightarrow> error + char list list" where
  "read_rows h [] = Inr []"
| "read_rows h (a # as) =
     (case objs h a of
        Some (RowList r) \<Rightarrow>
          (case read_rows h as of Inl e \<Rightarrow> Inl e | Inr rs \<Rightarrow> Inr (r # rs))
      | _ \<Rightarrow> Inl TypeError)"

text \<open>\<^verbatim>\<open>GameState()\<close>: an empty board, white to move, an empty history.\<close>

definition GameState_new :: "store \<Rightarrow> addr \<times> store" where
  "GameState_new h =
     (case alloc_rows h empty_board of (rows, h1) \<Rightarrow>
      case alloc h1 (BoardList rows) of (b, h2) \<Rightarrow>
      case alloc h2 (MoveList []) of (l, h3) \<Rightarrow>
        alloc h3 (StateObj b WHITE None l))"

text \<open>
  \<^verbatim>\<open>copy\<close>: a new object, a new list of new rows (\<^verbatim>\<open>row[:]\<close> for each row of the
  receiver), a new history list (\<^verbatim>\<open>self.move_history[:]\<close>); the four attribute
  assignments are one update of the new object.
\<close>

definition GameState_copy :: "store \<Rightarrow> addr \<Rightarrow> error + addr \<times> store" where
  "GameState_copy h self =
     (case objs h self of
        Some (StateObj b p ep l) \<Rightarrow>
          (case GameState_new h of (new, h1) \<Rightarrow>
           (case objs h1 b of
              Some (BoardList rows) \<Rightarrow>
                (case read_rows h1 rows of
                   Inl e \<Rightarrow> Inl e
                 | Inr contents \<Rightarrow>
                     (case alloc_rows h1 contents of (rows1, h2) \<Rightarrow>
                      case alloc h2 (BoardList rows1) of (b1, h3) \<Rightarrow>
                      (case objs h3 l of
                         Some (MoveList ms) \<Rightarrow>
                           (case alloc h3 (MoveList ms) of (l1, h4) \<Rightarrow>
                              Inr (new, h4\<lparr>objs := (objs h4)(new \<mapsto> StateObj b1 p ep l1)\<rparr>))
                       | _ \<Rightarrow> Inl TypeError)))
            | _ \<Rightarrow> Inl TypeError))
      | _ \<Rightarrow> Inl TypeError)"

text \<open>\<^verbatim>\<open>state.board[row][col]\<close>, read and written, for the state object at \<open>st\<close>.\<close>

definition store_board_get :: "store \<Rightarrow> addr \<Rightarrow> int \<Rightarrow> int \<Rightarrow> error + char" where
  "store_board_get h st row col =
     (case objs h st of
        Some (StateObj b p ep l) \<Rightarrow>
          (case objs h b of
             Some (BoardList rows) \<Rightarrow>
               (case py_index (length rows) row of
                  None \<Rightarrow> Inl IndexError
                | Some r \<Rightarrow>
                    (case objs h (rows ! r) of
                       Some (RowList cs) \<Rightarrow>
                         (case py_index (length cs) col of
                            None \<Rightarrow> Inl IndexError
                          | Some c \<Rightarrow> Inr (cs ! c))
                     | _ \<Rightarrow> Inl TypeError))
           | _ \<Rightarrow> Inl TypeError)
      | _ \<Rightarrow> Inl TypeError)"

definition store_board_set :: "store \<Rightarrow> addr \<Rightarrow> int \<Rightarrow> int \<Rightarrow> char \<Rightarrow> error + store" where
  "store_board_set h st row col v =
     (case objs h st of
        Some (StateObj b p ep l) \<Rightarrow>
          (case objs h b of
             Some (BoardList rows) \<Rightarrow>
               (case py_index (length rows) row of
                  None \<Rightarrow> Inl IndexError
                | Some r \<Rightarrow>
                    (case objs h (rows ! r) of
                       Some (RowList cs) \<Rightarrow>
                         (case py_index (length cs) col of
                            None \<Rightarrow> Inl IndexError
                          | Some c \<Rightarrow>
                              Inr (h\<lparr>objs := (objs h)(rows ! r \<mapsto> RowList (cs[c := v]))\<rparr>))
                     | _ \<Rightarrow> Inl TypeError))
           | _ \<Rightarrow> Inl TypeError)
      | _ \<Rightarrow> Inl TypeError)"

text \<open>\<^verbatim>\<open>make_move\<close> on the store: the address of the new state, and the store after.\<close>

definition make_move_in_store :: "store \<Rightarrow> addr \<Rightarrow> move \<Rightarrow> error + addr \<times> store" where
  "make_move_in_store h self move =
     (case move of (from_col, from_row, to_col, to_row) \<Rightarrow>
      (case GameState_copy h self of
         Inl e \<Rightarrow> Inl e
       | Inr (new_state, h1) \<Rightarrow>
      (case store_board_get h1 new_state from_row from_col of
         Inl e \<Rightarrow> Inl e
       | Inr piece \<Rightarrow>
      (case (case objs h1 new_state of
               Some (StateObj b p ep l) \<Rightarrow>
                 (if ep = Some (to_col, to_row)
                  then store_board_set h1 new_state from_row to_col EMPTY
                  else Inr h1)
             | _ \<Rightarrow> Inl TypeError) of
         Inl e \<Rightarrow> Inl e
       | Inr h2 \<Rightarrow>
      (case store_board_set h2 new_state from_row from_col EMPTY of
         Inl e \<Rightarrow> Inl e
       | Inr h3 \<Rightarrow>
      (case store_board_set h3 new_state to_row to_col piece of
         Inl e \<Rightarrow> Inl e
       | Inr h4 \<Rightarrow>
      (case objs h4 new_state of
         Some (StateObj b p ep l) \<Rightarrow>
           (case objs h4 l of
              Some (MoveList ms) \<Rightarrow>
                Inr (new_state,
                     h4\<lparr>objs := (objs h4)
                          (new_state \<mapsto>
                             StateObj b (if p = WHITE then BLACK else WHITE)
                               (if \<bar>to_row - from_row\<bar> = 2
                                then Some (to_col, (from_row + to_row) div 2) else None) l,
                           l \<mapsto> MoveList (ms @ [move]))\<rparr>)
            | _ \<Rightarrow> Inl TypeError)
       | _ \<Rightarrow> Inl TypeError)))))))"

text \<open>The position a state object stands for, read through its references.\<close>

definition state_at :: "store \<Rightarrow> addr \<Rightarrow> GameState option" where
  "state_at h a =
     (case objs h a of
        Some (StateObj b p ep l) \<Rightarrow>
          (case objs h b of
             Some (BoardList rows) \<Rightarrow>
               (case read_rows h rows of
                  Inl e \<Rightarrow> None
                | Inr contents \<Rightarrow>
                    (case objs h l of
                       Some (MoveList ms) \<Rightarrow>
                         Some \<lparr>board = contents, current_player = p,
                               en_passant_target = ep, move_history = ms\<rparr>
                     | _ \<Rightarrow> None))
           | _ \<Rightarrow> None)
      | _ \<Rightarrow> None)"

text \<open>Every object of the store lies below the next free address.\<close>

definition store_ok :: "store \<Rightarrow> bool" where
  "store_ok h = (\<forall>a. next_addr h \<le> a \<longrightarrow> objs h a = None)"

text \<open>
  The shape \<open>GameState_copy\<close> leaves: the state object at \<open>new\<close>, its list of rows,
  its rows and its history are distinct objects allocated from \<open>lo\<close> on, and hold
  the position \<open>s\<close>.
\<close>

definition fresh_state :: "addr \<Rightarrow> store \<Rightarrow> addr \<Rightarrow> GameState \<Rightarrow> bool" where
  "fresh_state lo h new s =
     (\<exists>b l rows.
        objs h new = Some (StateObj b (current_player s) (en_passant_target s) l)
        \<and> objs h b = Some (BoardList rows)
        \<and> length rows = length (board s)
        \<and> (\<forall>i<length rows. objs h (rows ! i) = Some (RowList (board s ! i)))
        \<and> objs h l = Some (MoveList (move_history s))
        \<and> distinct (new # b # l # rows)
        \<and> (\<forall>a\<in>set (new # b # l # rows). lo \<le> a))"

text \<open>
  A later store \<open>h'\<close> keeps a store \<open>h\<close>: whatever \<open>h\<close> held below its next free
  address is still there, and nothing lies at or above the next free address of
  \<open>h'\<close> that was not in \<open>h\<close>.
\<close>

definition keeps :: "store \<Rightarrow> store \<Rightarrow> bool" where
  "keeps h h' =
     (next_addr h \<le> next_addr h'
      \<and> (\<forall>a. a < next_addr h \<or> next_addr h' \<le> a \<longrightarrow> objs h' a = objs h a))"

section \<open>What the specification says, for comparison\<close>

text \<open>A syntactically valid move text: four characters, files \<open>a\<close>-\<open>h\<close>, ranks \<open>1\<close>-\<open>8\<close>.\<close>

definition valid_move_text :: "string \<Rightarrow> bool" where
  "valid_move_text t =
     (length t = 4 \<and> t ! 0 \<in> set ''abcdefgh'' \<and> t ! 1 \<in> set ''12345678''
      \<and> t ! 2 \<in> set ''abcdefgh'' \<and> t ! 3 \<in> set ''12345678'')"

text \<open>A well-formed setup token: colour, file, rank.\<close>

definition well_formed_token :: "string \<Rightarrow> bool" where
  "well_formed_token t =
     (length t = 3 \<and> t ! 0 \<in> {WHITE, BLACK} \<and> t ! 1 \<in> set ''abcdefgh''
      \<and> t ! 2 \<in> set ''12345678'')"

text \<open>
  The heuristic score as the specification writes it, a sum over the pawns of both
  sides: material, advancement of the own pawns less that of the opponent's, for
  each own passed pawn \<open>passed_pawn_weight\<close> and \<open>k\<close> for each rank of its
  advancement, less the same for the opponent's passed pawns, and \<open>center_weight\<close>
  for each own pawn on the files c to f. The specification has
  \<open>k = 5 * advancement_weight\<close>.
\<close>

definition advancement_of :: "char \<Rightarrow> int \<times> int \<Rightarrow> int" where
  "advancement_of c p = (if c = WHITE then snd p else 7 - snd p)"

definition heuristic_score :: "int \<Rightarrow> Evaluator \<Rightarrow> GameState \<Rightarrow> char \<Rightarrow> int" where
  "heuristic_score k ev s c =
     (let opp = (if c = WHITE then BLACK else WHITE);
          own = get_all_pieces s c;
          theirs = get_all_pieces s opp
      in material_weight ev * (int (length own) - int (length theirs))
         + advancement_weight ev * (\<Sum>p\<leftarrow>own. advancement_of c p)
         - advancement_weight ev * (\<Sum>p\<leftarrow>theirs. advancement_of opp p)
         + (\<Sum>p\<leftarrow>filter (\<lambda>p. is_passed_pawn s (fst p) (snd p) c) own.
              passed_pawn_weight ev + k * advancement_of c p)
         - (\<Sum>p\<leftarrow>filter (\<lambda>p. is_passed_pawn s (fst p) (snd p) opp) theirs.
              passed_pawn_weight ev + k * advancement_of opp p)
         + center_weight ev * int (length (filter (\<lambda>p. 2 \<le> fst p \<and> fst p \<le> 5) own)))"

text \<open>
  A double step of the side to move: from its starting rank, two cells ahead on the
  same file, the cell ahead and the destination both empty.
\<close>

definition double_step :: "GameState \<Rightarrow> move \<Rightarrow> bool" where
  "double_step s m =
     (case m of (from_col, from_row, to_col, to_row) \<Rightarrow>
        to_col = from_col
        \<and> from_row = (if current_player s = WHITE then 1 else 6)
        \<and> to_row = from_row + 2 * (if current_player s = WHITE then 1 else - 1)
        \<and> cell s from_col (from_row + (if current_player s = WHITE then 1 else - 1)) = EMPTY
        \<and> cell s from_col to_row = EMPTY)"

section \<open>Notions used in the statements\<close>

text \<open>What one pawn adds to, or takes from, the score in the loops of \<open>evaluate\<close>.\<close>

definition own_term :: "Evaluator \<Rightarrow> GameState \<Rightarrow> char \<Rightarrow> int \<times> int \<Rightarrow> int" where
  "own_term ev s c p =
     advancement_of c p * advancement_weight ev
     + (if is_passed_pawn s (fst p) (snd p) c
        then passed_pawn_weight ev + advancement_of c p * 5 else 0)
     + (if 2 \<le> fst p \<and> fst p \<le> 5 then center_weight ev else 0)"

definition their_term :: "Evaluator \<Rightarrow> GameState \<Rightarrow> char \<Rightarrow> int \<times> int \<Rightarrow> int" where
  "their_term ev s c p =
     advancement_of c p * advancement_weight ev
     + (if is_passed_pawn s (fst p) (snd p) c
        then passed_pawn_weight ev + advancement_of c p * 5 else 0)"

text \<open>
  The tokens \<open>setup_from_string\<close> places: three characters or more, the second a file
  \<open>a\<close>-\<open>h\<close> and the third a rank \<open>1\<close>-\<open>8\<close>; and the cell such a token names.
\<close>

definition token_cell :: "string \<Rightarrow> int \<times> int" where
  "token_cell t = (ord (t ! 1) - 97, ord (t ! 2) - 49)"

definition placing_token :: "string \<Rightarrow> bool" where
  "placing_token t =
     (3 \<le> length t \<and> 0 \<le> fst (token_cell t) \<and> fst (token_cell t) < 8
      \<and> 0 \<le> snd (token_cell t) \<and> snd (token_cell t) < 8)"

text \<open>A move whose four coordinates are on the board.\<close>

definition move_in_bounds :: "move \<Rightarrow> bool" where
  "move_in_bounds m =
     (case m of (from_col, from_row, to_col, to_row) \<Rightarrow>
        0 \<le> from_col \<and> from_col < 8 \<and> 0 \<le> from_row \<and> from_row < 8
        \<and> 0 \<le> to_col \<and> to_col < 8 \<and> 0 \<le> to_row \<and> to_row < 8)"

text \<open>
  How a value \<open>r\<close> returned for the window \<open>(alpha, beta)\<close> stands to the full-width
  value \<open>v\<close>: an upper bound at or below \<open>alpha\<close>, exact strictly inside, a lower
  bound at or above \<open>beta\<close>.
\<close>

definition within_window :: "pynum \<Rightarrow> pynum \<Rightarrow> pynum \<Rightarrow> pynum \<Rightarrow> bool" where
  "within_window alpha beta r v =
     ((r \<le> alpha \<longrightarrow> v \<le> r) \<and> (alpha < r \<and> r < beta \<longrightarrow> r = v) \<and> (beta \<le> r \<longrightarrow> r \<le> v))"

text \<open>The sixty-four cells in the order \<open>get_all_pieces\<close> visits them.\<close>

definition all_cells :: "(int \<times> int) list" where
  "all_cells = [(col, row). row \<leftarrow> [0..7], col \<leftarrow> [0..7]]"

text \<open>
  The most a pawn of colour \<open>k\<close> on cell \<open>p\<close> can weigh in the evaluation, material
  included, when it is short of its last rank; nothing on the last rank.
\<close>

definition cell_cap :: "char \<Rightarrow> int \<times> int \<Rightarrow> int" where
  "cell_cap k p =
     (if advancement_of k p \<le> 6
      then 130 + 15 * advancement_of k p + (if 2 \<le> fst p \<and> fst p \<le> 5 then 5 else 0)
      else 0)"

section \<open>Positions used as examples\<close>

definition initial_position :: GameState where
  "initial_position = setup_initial_position GameState_init"

text \<open>The initial position after \<open>a2a3\<close>, black to move.\<close>

definition after_a2a3 :: GameState where
  "after_a2a3 =
     \<lparr>board = [''........'', ''.WWWWWWW'', ''W.......'', ''........'',
                ''........'', ''........'', ''BBBBBBBB'', ''........''],
      current_player = BLACK, en_passant_target = None, move_history = [(0, 1, 0, 2)]\<rparr>"

text \<open>A white pawn on h8 and a black pawn on a1.\<close>

definition both_flags :: GameState where
  "both_flags =
     \<lparr>board = [''B.......'', ''........'', ''........'', ''........'',
                ''........'', ''........'', ''........'', ''.......W''],
      current_player = WHITE, en_passant_target = None, move_history = []\<rparr>"

text \<open>A white pawn on a4 and a black pawn on h6, both passed.\<close>

definition two_passed :: GameState where
  "two_passed =
     \<lparr>board = [''........'', ''........'', ''........'', ''W.......'',
                ''........'', ''.......B'', ''........'', ''........''],
      current_player = WHITE, en_passant_target = None, move_history = []\<rparr>"

text \<open>Sixteen white pawns on ranks 3 and 4, a black pawn on a7, white to move.\<close>

definition many_pawns :: GameState where
  "many_pawns =
     \<lparr>board = [''........'', ''........'', ''WWWWWWWW'', ''WWWWWWWW'',
                ''........'', ''........'', ''B.......'', ''........''],
      current_player = WHITE, en_passant_target = None, move_history = []\<rparr>"

text \<open>The initial position after the move from a2 to d4, which is not a legal one.\<close>

definition after_a2d4 :: GameState where
  "after_a2d4 =
     \<lparr>board = [''........'', ''.WWWWWWW'', ''........'', ''...W....'',
                ''........'', ''........'', ''BBBBBBBB'', ''........''],
      current_player = BLACK, en_passant_target = Some (3, 2),
      move_history = [(0, 1, 3, 3)]\<rparr>"

text \<open>A store holding the initial position: rows at 0 to 7, the state object at 10.\<close>

definition initial_store :: store where
  "initial_store =
     \<lparr>objs = (\<lambda>a. if a < 8 then Some (RowList (board initial_position ! a))
                   else if a = 8 then Some (BoardList [0..<8])
                   else if a = 9 then Some (MoveList [])
                   else if a = 10 then Some (StateObj 8 WHITE None 9)
                   else None),
      next_addr = 11\<rparr>"

section \<open>Properties\<close>

subsection \<open>Moves as text\<close>

lemma ord_char_of: "0 \<le> n \<Longrightarrow> n < 256 \<Longrightarrow> ord (char_of n) = n"
  by (simp add: ord_def)

lemma chr_file: "0 \<le> c \<Longrightarrow> c \<le> 7 \<Longrightarrow> chr (ord CHR ''a'' + c) = Inr (char_of (97 + c))"
  by (simp add: chr_def ord_def)

lemma str_rank: "0 \<le> r \<Longrightarrow> r \<le> 7 \<Longrightarrow> str (r + 1) = [char_of (49 + r)]"
proof -
  assume a: "0 \<le> r" "r \<le> 7"
  then have "nat (r + 1) < 10" by simp
  then have "str_nat (nat (r + 1)) = [char_of (48 + nat (r + 1))]" by simp
  moreover have "int (48 + nat (r + 1)) = 49 + r" using a by simp
  then have "(char_of (48 + nat (r + 1)) :: char) = char_of (49 + r)"
    by (metis char_of_nat)
  ultimately show ?thesis using a by (simp add: str_def)
qed

lemma int_of_rank: "0 \<le> r \<Longrightarrow> r \<le> 7 \<Longrightarrow> int_of_char (char_of (49 + r)) = Inr (r + 1)"
  by (simp add: int_of_char_def decimal_digit_def ord_char_of)

lemma file_char:
  "0 \<le> (c::int) \<Longrightarrow> c \<le> 7 \<Longrightarrow> (char_of (97 + c) :: char) \<in> set ''abcdefgh''"
proof -
  assume "0 \<le> c" "c \<le> 7"
  then have "c \<in> {0, 1, 2, 3, 4, 5, 6, 7}" by auto
  then show ?thesis by (auto simp: char_of_eq_iff)
qed

lemma rank_char:
  "0 \<le> (r::int) \<Longrightarrow> r \<le> 7 \<Longrightarrow> (char_of (49 + r) :: char) \<in> set ''12345678''"
proof -
  assume "0 \<le> r" "r \<le> 7"
  then have "r \<in> {0, 1, 2, 3, 4, 5, 6, 7}" by auto
  then show ?thesis by (auto simp: char_of_eq_iff)
qed

text \<open>
  C9. For a move whose four coordinates lie in \<open>0 .. 7\<close>, \<open>move_to_string\<close> returns a
  string of exactly four characters, a file letter \<open>a\<close>-\<open>h\<close>, a rank digit
  \<open>1\<close>-\<open>8\<close>, a file letter and a rank digit (so none of them upper case), and
  \<open>string_to_move\<close> of that string is the move again.
\<close>

theorem move_string_roundtrip:
  assumes "0 \<le> fc \<and> fc \<le> 7" "0 \<le> fr \<and> fr \<le> 7" "0 \<le> tc \<and> tc \<le> 7" "0 \<le> tr \<and> tr \<le> 7"
  shows "\<exists>c1 d1 c2 d2. move_to_string (fc, fr, tc, tr) = Inr [c1, d1, c2, d2]
           \<and> c1 \<in> set ''abcdefgh'' \<and> d1 \<in> set ''12345678''
           \<and> c2 \<in> set ''abcdefgh'' \<and> d2 \<in> set ''12345678''
           \<and> string_to_move [c1, d1, c2, d2] = Inr (Some (fc, fr, tc, tr))"
proof -
  let ?s = "[char_of (97 + fc), char_of (49 + fr), char_of (97 + tc), char_of (49 + tr)]"
  have m: "move_to_string (fc, fr, tc, tr) = Inr ?s"
    using assms by (simp add: move_to_string_def chr_file str_rank)
  have b: "string_to_move ?s = Inr (Some (fc, fr, tc, tr))"
    using assms by (simp add: string_to_move_def int_of_rank ord_char_of ord_def)
  show ?thesis
    using m b assms file_char rank_char by blast
qed

theorem move_string_roundtrip_witness:
  "move_to_string (4, 1, 4, 3) = Inr ''e2e4''
   \<and> string_to_move ''e2e4'' = Inr (Some (4, 1, 4, 3))"
  using move_string_roundtrip [of 4 1 4 3]
  by (simp add: move_to_string_def string_to_move_def chr_def ord_def str_def
      int_of_char_def decimal_digit_def char_of_eq_iff)

text \<open>
  C8, as stated: every text that is not a valid four-character move gives the parse
  failure \<open>None\<close>. It fails: \<open>z9z9\<close> and \<open>e2e4zz\<close> are not valid move texts, and
  \<open>string_to_move\<close> returns a move for each.
\<close>

theorem string_to_move_counterexample:
  "\<not> valid_move_text ''z9z9'' \<and> string_to_move ''z9z9'' = Inr (Some (25, 8, 25, 8))
   \<and> \<not> valid_move_text ''e2e4zz'' \<and> string_to_move ''e2e4zz'' = Inr (Some (4, 1, 4, 3))"
  by (simp add: valid_move_text_def string_to_move_def ord_def int_of_char_def
      decimal_digit_def)

text \<open>
  C8, amended: a text of fewer than four characters gives the parse failure
  \<open>None\<close>; a text of four or more characters whose second and fourth characters are
  decimal digits gives the move read from its first four characters, file letters
  minus \<open>a\<close> and digits minus one, with no check of the range and no look at what
  follows.
\<close>

theorem string_to_move_amended:
  "(length t < 4 \<longrightarrow> string_to_move t = Inr None)
   \<and> (4 \<le> length t \<and> decimal_digit (t ! 1) \<and> decimal_digit (t ! 3) \<longrightarrow>
        string_to_move t =
          Inr (Some (ord (t ! 0) - 97, ord (t ! 1) - 49, ord (t ! 2) - 97, ord (t ! 3) - 49)))"
  by (simp add: string_to_move_def int_of_char_def ord_def)

theorem string_to_move_amended_witness:
  "length ''e2'' < 4 \<and> string_to_move ''e2'' = Inr None
   \<and> 4 \<le> length ''z9z9'' \<and> decimal_digit (''z9z9'' ! 1) \<and> decimal_digit (''z9z9'' ! 3)
   \<and> string_to_move ''z9z9'' = Inr (Some (25, 8, 25, 8))"
  using string_to_move_amended [of "''e2''"] string_to_move_amended [of "''z9z9''"]
  by (simp add: decimal_digit_def ord_def)

subsection \<open>Terminal positions\<close>

lemma reached_end_first:
  "\<forall>k\<in>set pre. cell s k 7 \<noteq> WHITE \<and> cell s k 0 \<noteq> BLACK \<Longrightarrow>
   cell s c 7 = WHITE \<or> cell s c 0 = BLACK \<Longrightarrow>
   reached_end s (pre @ c # post)
     = Some (True, Some (if cell s c 7 = WHITE then WHITE else BLACK))"
  by (induction pre) auto

lemma reached_end_none:
  "\<forall>k\<in>set cols. cell s k 7 \<noteq> WHITE \<and> cell s k 0 \<noteq> BLACK \<Longrightarrow> reached_end s cols = None"
  by (induction cols) auto

text \<open>
  C3, as stated: a position with a white pawn on rank 8 and a black pawn on rank 1
  reports white. It fails with the white pawn on h8 and the black pawn on a1: the
  loop meets file a first and reports black.
\<close>

theorem is_terminal_counterexample:
  "cell both_flags 7 7 = WHITE \<and> cell both_flags 0 0 = BLACK
   \<and> is_terminal both_flags = (True, Some BLACK)"
  by code_simp

text \<open>
  C3, amended: the detector goes through the files a to h in order; at the first file
  \<open>c\<close> with a white pawn on rank 8 or a black pawn on rank 1 it reports white when
  that file has the white pawn on rank 8, and black otherwise.
\<close>

theorem is_terminal_first_file:
  assumes "0 \<le> c" "c \<le> 7"
    and "\<forall>k. 0 \<le> k \<and> k < c \<longrightarrow> cell s k 7 \<noteq> WHITE \<and> cell s k 0 \<noteq> BLACK"
    and "cell s c 7 = WHITE \<or> cell s c 0 = BLACK"
  shows "is_terminal s = (True, Some (if cell s c 7 = WHITE then WHITE else BLACK))"
proof -
  have "[0..7] = [0..c - 1] @ c # [c + 1..7]"
    using assms(1,2) by (rule upto_split3)
  moreover have "\<forall>k\<in>set [0..c - 1]. cell s k 7 \<noteq> WHITE \<and> cell s k 0 \<noteq> BLACK"
    using assms(3) by simp
  ultimately have "reached_end s [0..7]
      = Some (True, Some (if cell s c 7 = WHITE then WHITE else BLACK))"
    using reached_end_first [OF _ assms(4)] by simp
  then show ?thesis by (simp add: is_terminal_def)
qed

theorem is_terminal_first_file_witness:
  "cell both_flags 0 0 = BLACK \<and> is_terminal both_flags = (True, Some BLACK)"
  using is_terminal_first_file [of 0 both_flags]
  by (simp add: both_flags_def cell_def WHITE_def BLACK_def)

subsection \<open>The leaf of the search\<close>

text \<open>
  What \<open>alpha_beta\<close> returns at depth 0 or below on a position that is not terminal,
  the deadline not passed: the evaluation for the engine's colour, whoever is to move.
\<close>

lemma alpha_beta_leaf:
  assumes "\<not> clock (clock_reads ai)" "is_terminal s = (False, w)" "depth \<le> 0"
  shows "fst (alpha_beta clock ai s depth alpha beta mx)
           = Inr (Fin (evaluate (evaluator ai) s (color ai)))"
  using assms by (simp add: alpha_beta.simps should_stop_def)

lemma after_a2a3_not_terminal: "is_terminal after_a2a3 = (False, None)"
  by code_simp

lemma after_a2a3_white: "evaluate Evaluator_init after_a2a3 WHITE = 30"
  by code_simp

lemma after_a2a3_black: "evaluate Evaluator_init after_a2a3 BLACK = 10"
  by code_simp

lemma after_a2a3_reached: "make_move initial_position (0, 1, 0, 2) = Inr after_a2a3"
  by code_simp

text \<open>
  C1. The engine plays white and searches the initial position to depth 1; after
  \<open>a2a3\<close> the recursive call has depth 0 and black to move, and the position is not
  terminal. The value returned is the evaluation for white, the engine's colour, 30;
  the evaluation for the side to move is 10.
\<close>

theorem alpha_beta_leaf_engine_colour:
  "make_move initial_position (0, 1, 0, 2) = Inr after_a2a3
   \<and> current_player after_a2a3 = BLACK
   \<and> is_terminal after_a2a3 = (False, None)
   \<and> fst (alpha_beta (\<lambda>k. False) (TwoFlagsAI_init WHITE) after_a2a3 0 MInf PInf False)
       = Inr (Fin 30)
   \<and> evaluate Evaluator_init after_a2a3 WHITE = 30
   \<and> evaluate Evaluator_init after_a2a3 (current_player after_a2a3) = 10"
proof -
  have cp: "current_player after_a2a3 = BLACK"
    by (simp add: after_a2a3_def)
  show ?thesis
    by (simp add: cp after_a2a3_reached after_a2a3_not_terminal after_a2a3_white
        after_a2a3_black should_stop_def TwoFlagsAI_init_def alpha_beta.simps)
qed

subsection \<open>The evaluator as a sum\<close>

lemma my_pawns_loop_terms:
  "my_pawns_loop ev s c ps score = score + (\<Sum>p\<leftarrow>ps. own_term ev s c p)"
proof (induction ps arbitrary: score)
  case Nil
  show ?case by simp
next
  case (Cons p ps)
  obtain col row where p: "p = (col, row)" by (cases p)
  have "my_pawns_loop ev s c (p # ps) score
      = my_pawns_loop ev s c ps (score + own_term ev s c p)"
  proof (cases "is_passed_pawn s col row c")
    case True
    then show ?thesis
      by (cases "2 \<le> col"; cases "col \<le> 5")
         (simp_all add: p own_term_def advancement_of_def Let_def add.assoc)
  next
    case False
    then show ?thesis
      by (cases "2 \<le> col"; cases "col \<le> 5")
         (simp_all add: p own_term_def advancement_of_def Let_def add.assoc)
  qed
  then show ?case by (simp add: Cons.IH)
qed

lemma opp_pawns_loop_terms:
  "opp_pawns_loop ev s c ps score = score - (\<Sum>p\<leftarrow>ps. their_term ev s c p)"
proof (induction ps arbitrary: score)
  case Nil
  show ?case by simp
next
  case (Cons p ps)
  obtain col row where p: "p = (col, row)" by (cases p)
  have "opp_pawns_loop ev s c (p # ps) score
      = opp_pawns_loop ev s c ps (score - their_term ev s c p)"
    by (cases "is_passed_pawn s col row c")
       (simp_all add: p their_term_def advancement_of_def Let_def diff_diff_eq)
  then show ?case by (simp add: Cons.IH)
qed

lemma sum_own_terms:
  "(\<Sum>p\<leftarrow>ps. own_term ev s c p) =
     advancement_weight ev * (\<Sum>p\<leftarrow>ps. advancement_of c p)
     + (\<Sum>p\<leftarrow>filter (\<lambda>p. is_passed_pawn s (fst p) (snd p) c) ps.
          passed_pawn_weight ev + 5 * advancement_of c p)
     + center_weight ev * int (length (filter (\<lambda>p. 2 \<le> fst p \<and> fst p \<le> 5) ps))"
  by (induction ps) (simp_all add: own_term_def algebra_simps)

lemma sum_their_terms:
  "(\<Sum>p\<leftarrow>ps. their_term ev s c p) =
     advancement_weight ev * (\<Sum>p\<leftarrow>ps. advancement_of c p)
     + (\<Sum>p\<leftarrow>filter (\<lambda>p. is_passed_pawn s (fst p) (snd p) c) ps.
          passed_pawn_weight ev + 5 * advancement_of c p)"
  by (induction ps) (simp_all add: their_term_def algebra_simps)

lemma evaluate_terms:
  assumes "fst (is_terminal s) = False"
  shows "evaluate ev s c =
     (int (length (get_all_pieces s c))
        - int (length (get_all_pieces s (if c = WHITE then BLACK else WHITE)))) * material_weight ev
     + (\<Sum>p\<leftarrow>get_all_pieces s c. own_term ev s c p)
     - (\<Sum>p\<leftarrow>get_all_pieces s (if c = WHITE then BLACK else WHITE).
          their_term ev s (if c = WHITE then BLACK else WHITE) p)"
proof -
  obtain w where t: "is_terminal s = (False, w)"
    using assms by (cases "is_terminal s") simp
  show ?thesis
    by (simp add: evaluate_def t Let_def my_pawns_loop_terms opp_pawns_loop_terms)
qed

lemma two_passed_not_terminal: "is_terminal two_passed = (False, None)"
  by code_simp

text \<open>
  C5, as stated: a passed pawn earns \<open>passed_pawn_weight\<close> plus five times
  \<open>advancement_weight\<close> for each rank of its advancement. It fails on the
  position with a white pawn on a4 and a black pawn on h6: the evaluation for white
  is 15, where the sum with 50 a rank is 60.
\<close>

theorem evaluate_passed_counterexample:
  "is_terminal two_passed = (False, None)
   \<and> evaluate Evaluator_init two_passed WHITE = 15
   \<and> heuristic_score (5 * advancement_weight Evaluator_init) Evaluator_init two_passed WHITE
       = 60"
  by code_simp

text \<open>
  C5, amended: for a position that is not terminal, the evaluation is the sum of the
  material, advancement and centre terms and, for each passed pawn of the
  perspective, \<open>passed_pawn_weight\<close> plus 5 for each rank of its advancement, less
  the same amount for each passed pawn of the opponent.
\<close>

theorem evaluate_heuristic_sum:
  assumes "fst (is_terminal s) = False"
  shows "evaluate ev s c = heuristic_score 5 ev s c"
  unfolding evaluate_terms [OF assms] heuristic_score_def Let_def sum_own_terms sum_their_terms
  by (simp add: algebra_simps)

theorem evaluate_heuristic_sum_witness:
  "fst (is_terminal two_passed) = False
   \<and> evaluate Evaluator_init two_passed WHITE = 15
   \<and> heuristic_score 5 Evaluator_init two_passed WHITE = 15"
proof -
  have t: "fst (is_terminal two_passed) = False" by code_simp
  have h: "heuristic_score 5 Evaluator_init two_passed WHITE = 15" by code_simp
  show ?thesis
    using evaluate_heuristic_sum [OF t, of Evaluator_init WHITE] t h by simp
qed

subsection \<open>Positions from text\<close>

lemma wf_board_nth: "wf_board b \<Longrightarrow> i < 8 \<Longrightarrow> length (b ! i) = 8"
  by (simp add: wf_board_def list_all_length)

lemma wf_board_set_cell:
  assumes "wf_board b"
  shows "wf_board (set_cell b col row v)"
proof (cases "nat row < 8")
  case True
  then show ?thesis
    using assms by (auto simp: wf_board_def set_cell_def list_all_length nth_list_update)
next
  case False
  then show ?thesis
    using assms by (simp add: wf_board_def set_cell_def list_update_beyond)
qed

lemma set_cell_nth:
  assumes "wf_board b" "0 \<le> col" "col < 8" "0 \<le> row" "row < 8"
    and "0 \<le> c" "0 \<le> r" "r < 8"
  shows "set_cell b col row v ! nat r ! nat c
           = (if c = col \<and> r = row \<and> c < 8 then v else b ! nat r ! nat c)"
proof -
  have l: "length b = 8" using assms(1) by (simp add: wf_board_def)
  have lr: "length (b ! nat row) = 8" using assms by (simp add: wf_board_nth)
  show ?thesis
    using assms l lr by (auto simp: set_cell_def nth_list_update)
qed

lemma find_snoc:
  "find P (xs @ [t]) = (case find P xs of Some x \<Rightarrow> Some x | None \<Rightarrow> if P t then Some t else None)"
  by (induction xs) auto

lemma place_pieces_cells:
  assumes "wf_board b"
    and "\<forall>t\<in>set tokens. 3 \<le> length t \<longrightarrow> decimal_digit (t ! 2)"
  shows "\<exists>b'. place_pieces b tokens = Inr b' \<and> wf_board b'
           \<and> (\<forall>col row. 0 \<le> col \<and> col < 8 \<and> 0 \<le> row \<and> row < 8 \<longrightarrow>
                b' ! nat row ! nat col =
                  (case find (\<lambda>t. placing_token t \<and> token_cell t = (col, row)) (rev tokens) of
                     None \<Rightarrow> b ! nat row ! nat col
                   | Some t \<Rightarrow> t ! 0))"
  using assms
proof (induction tokens arbitrary: b)
  case Nil
  then show ?case by simp
next
  case (Cons t ts)
  show ?case
  proof (cases "placing_token t")
    case False
    then have "place_pieces b (t # ts) = place_pieces b ts"
      using Cons.prems(2)
      by (auto simp: placing_token_def token_cell_def int_of_char_def ord_def Let_def)
    moreover obtain b' where "place_pieces b ts = Inr b'" "wf_board b'"
      and "\<forall>col row. 0 \<le> col \<and> col < 8 \<and> 0 \<le> row \<and> row < 8 \<longrightarrow>
                b' ! nat row ! nat col =
                  (case find (\<lambda>t. placing_token t \<and> token_cell t = (col, row)) (rev ts) of
                     None \<Rightarrow> b ! nat row ! nat col
                   | Some t \<Rightarrow> t ! 0)"
      using Cons.IH [of b] Cons.prems by auto
    ultimately show ?thesis
      using False by (auto simp: find_snoc split: option.splits)
  next
    case True
    obtain c r where cr: "token_cell t = (c, r)" by (cases "token_cell t")
    have rng: "0 \<le> c" "c < 8" "0 \<le> r" "r < 8" "3 \<le> length t"
      using True cr by (simp_all add: placing_token_def)
    have dig: "decimal_digit (t ! 2)" using Cons.prems(2) rng by simp
    let ?b1 = "set_cell b c r (t ! 0)"
    have step: "place_pieces b (t # ts) = place_pieces ?b1 ts"
      using rng dig cr by (simp add: token_cell_def int_of_char_def ord_def Let_def)
    have wf1: "wf_board ?b1" using Cons.prems(1) by (rule wf_board_set_cell)
    obtain b' where b': "place_pieces ?b1 ts = Inr b'" "wf_board b'"
      and cells: "\<forall>col row. 0 \<le> col \<and> col < 8 \<and> 0 \<le> row \<and> row < 8 \<longrightarrow>
                b' ! nat row ! nat col =
                  (case find (\<lambda>t. placing_token t \<and> token_cell t = (col, row)) (rev ts) of
                     None \<Rightarrow> ?b1 ! nat row ! nat col
                   | Some t \<Rightarrow> t ! 0)"
      using Cons.IH [OF wf1] Cons.prems(2) by auto
    have "b' ! nat row ! nat col =
            (case find (\<lambda>t. placing_token t \<and> token_cell t = (col, row)) (rev (t # ts)) of
               None \<Rightarrow> b ! nat row ! nat col
             | Some t \<Rightarrow> t ! 0)"
      if "0 \<le> col \<and> col < 8 \<and> 0 \<le> row \<and> row < 8" for col row
      using that cells True cr set_cell_nth [OF Cons.prems(1) rng(1-4), of col row "t ! 0"]
      by (auto simp: find_snoc split: option.splits)
    then show ?thesis using step b' by auto
  qed
qed


lemma wf_empty_board: "wf_board empty_board"
  by (simp add: wf_board_def empty_board_def list_all_length)

lemma empty_board_nth:
  "0 \<le> col \<Longrightarrow> col < 8 \<Longrightarrow> 0 \<le> row \<Longrightarrow> row < 8 \<Longrightarrow> empty_board ! nat row ! nat col = EMPTY"
  by (simp add: empty_board_def)

text \<open>
  C7, as stated: only the well-formed tokens leave a pawn and nothing fails. It fails:
  \<open>Xa1\<close> and \<open>Wb2zz\<close> are not well-formed tokens and each sets a cell, and \<open>Wax\<close>
  raises \<^verbatim>\<open>ValueError\<close>.
\<close>

theorem setup_from_string_counterexample:
  "\<not> well_formed_token ''Xa1''
   \<and> setup_from_string GameState_init ''Xa1'' =
       Inr (GameState_init\<lparr>board := [''X.......'', ''........'', ''........'', ''........'',
                                       ''........'', ''........'', ''........'', ''........'']\<rparr>)
   \<and> \<not> well_formed_token ''Wb2zz''
   \<and> setup_from_string GameState_init ''Wb2zz'' =
       Inr (GameState_init\<lparr>board := [''........'', ''.W......'', ''........'', ''........'',
                                       ''........'', ''........'', ''........'', ''........'']\<rparr>)
   \<and> setup_from_string GameState_init ''Wax'' = Inl ValueError"
  by code_simp

text \<open>
  C7, amended: when the text holds at least one token and every token of three or
  more characters has a decimal digit as its third character, \<open>setup_from_string\<close>
  completes with an eight by eight board on which each cell holds the first character
  of the last token, of three or more characters, whose second and third characters
  name that cell, and is empty when there is none; a first token \<open>Setup\<close> is skipped.
  The first character is not checked, nor what follows the third.
\<close>

theorem setup_from_string_amended:
  assumes "split txt = p0 # rest"
    and "tokens = (if p0 = ''Setup'' then rest else p0 # rest)"
    and "\<forall>t\<in>set tokens. 3 \<le> length t \<longrightarrow> decimal_digit (t ! 2)"
  shows "\<exists>b. setup_from_string s txt = Inr (s\<lparr>board := b\<rparr>) \<and> wf_board b
           \<and> (\<forall>col row. 0 \<le> col \<and> col < 8 \<and> 0 \<le> row \<and> row < 8 \<longrightarrow>
                b ! nat row ! nat col =
                  (case find (\<lambda>t. placing_token t \<and> token_cell t = (col, row)) (rev tokens) of
                     None \<Rightarrow> EMPTY
                   | Some t \<Rightarrow> t ! 0))"
proof -
  obtain b where b: "place_pieces empty_board tokens = Inr b" "wf_board b"
    and cells: "\<forall>col row. 0 \<le> col \<and> col < 8 \<and> 0 \<le> row \<and> row < 8 \<longrightarrow>
                b ! nat row ! nat col =
                  (case find (\<lambda>t. placing_token t \<and> token_cell t = (col, row)) (rev tokens) of
                     None \<Rightarrow> empty_board ! nat row ! nat col
                   | Some t \<Rightarrow> t ! 0)"
    using place_pieces_cells [OF wf_empty_board assms(3)] by auto
  have "setup_from_string s txt = Inr (s\<lparr>board := b\<rparr>)"
    using assms(1,2) b(1) by (simp add: setup_from_string_def)
  moreover have "b ! nat row ! nat col =
                  (case find (\<lambda>t. placing_token t \<and> token_cell t = (col, row)) (rev tokens) of
                     None \<Rightarrow> EMPTY
                   | Some t \<Rightarrow> t ! 0)"
    if "0 \<le> col \<and> col < 8 \<and> 0 \<le> row \<and> row < 8" for col row
    using that cells empty_board_nth [of col row] by (auto split: option.splits)
  ultimately show ?thesis using b(2) by blast
qed

theorem setup_from_string_amended_witness:
  "split ''Setup Wb4 Xa1'' = [''Setup'', ''Wb4'', ''Xa1'']
   \<and> decimal_digit (''Wb4'' ! 2) \<and> decimal_digit (''Xa1'' ! 2)
   \<and> (\<exists>b. setup_from_string GameState_init ''Setup Wb4 Xa1'' = Inr (GameState_init\<lparr>board := b\<rparr>)
          \<and> wf_board b \<and> b ! 3 ! 1 = CHR ''W'' \<and> b ! 0 ! 0 = CHR ''X'' \<and> b ! 1 ! 1 = EMPTY)"
proof -
  have sp: "split ''Setup Wb4 Xa1'' = [''Setup'', ''Wb4'', ''Xa1'']" by code_simp
  have dg: "\<forall>t\<in>set [''Wb4'', ''Xa1'']. 3 \<le> length t \<longrightarrow> decimal_digit (t ! 2)"
    by (simp add: decimal_digit_def ord_def)
  obtain b where b: "setup_from_string GameState_init ''Setup Wb4 Xa1'' = Inr (GameState_init\<lparr>board := b\<rparr>)"
    "wf_board b"
    and cells: "\<forall>col row. 0 \<le> col \<and> col < 8 \<and> 0 \<le> row \<and> row < 8 \<longrightarrow>
                b ! nat row ! nat col =
                  (case find (\<lambda>t. placing_token t \<and> token_cell t = (col, row)) (rev [''Wb4'', ''Xa1'']) of
                     None \<Rightarrow> EMPTY
                   | Some t \<Rightarrow> t ! 0)"
    using setup_from_string_amended [OF sp _ dg, of GameState_init] by auto
  have "b ! 3 ! 1 = CHR ''W''"
    using cells [rule_format, of 1 3] by (simp add: placing_token_def token_cell_def ord_def)
  moreover have "b ! 0 ! 0 = CHR ''X''"
    using cells [rule_format, of 0 0] by (simp add: placing_token_def token_cell_def ord_def)
  moreover have "b ! 1 ! 1 = EMPTY"
    using cells [rule_format, of 1 1] by (simp add: placing_token_def token_cell_def ord_def)
  ultimately show ?thesis
    using sp b by (auto simp: decimal_digit_def ord_def)
qed

subsection \<open>Generated moves apply\<close>

lemma get_all_pieces_range:
  "p \<in> set (get_all_pieces s c) \<Longrightarrow> 0 \<le> fst p \<and> fst p < 8 \<and> 0 \<le> snd p \<and> snd p < 8"
  by (auto simp: get_all_pieces_def)

lemma pawn_moves_in_bounds:
  assumes "m \<in> set (pawn_moves s (col, row))" "0 \<le> col" "col < 8" "0 \<le> row" "row < 8"
  shows "move_in_bounds m"
  using assms
  by (auto simp: pawn_moves_def capture_moves_def is_valid_pos_def BOARD_SIZE_def Let_def
      move_in_bounds_def split: if_splits)

lemma generate_moves_in_bounds:
  assumes "m \<in> set (generate_moves s)"
  shows "move_in_bounds m"
proof -
  obtain p where p: "p \<in> set (get_all_pieces s (current_player s))" "m \<in> set (pawn_moves s p)"
    using assms by (auto simp: generate_moves_def)
  obtain col row where cr: "p = (col, row)" by (cases p)
  show ?thesis
    using pawn_moves_in_bounds [of m s col row] p get_all_pieces_range [OF p(1)] cr by simp
qed

lemma board_get_in_range:
  assumes "wf_board b" "0 \<le> row" "row < 8" "0 \<le> col" "col < 8"
  shows "board_get b row col = Inr (b ! nat row ! nat col)"
  using assms by (simp add: board_get_def py_index_def wf_board_def wf_board_nth)

lemma board_set_in_range:
  assumes "wf_board b" "0 \<le> row" "row < 8" "0 \<le> col" "col < 8"
  shows "board_set b row col v = Inr (set_cell b col row v)"
  using assms by (simp add: board_set_def py_index_def wf_board_def wf_board_nth set_cell_def)

lemma make_move_in_bounds:
  assumes "wf_state s" "move_in_bounds (fc, fr, tc, tr)"
  shows "make_move s (fc, fr, tc, tr) =
     Inr \<lparr>board = set_cell (set_cell (if en_passant_target s = Some (tc, tr)
                                        then set_cell (board s) tc fr EMPTY else board s)
                               fc fr EMPTY) tc tr (cell s fc fr),
          current_player = (if current_player s = WHITE then BLACK else WHITE),
          en_passant_target = (if \<bar>tr - fr\<bar> = 2 then Some (tc, (fr + tr) div 2) else None),
          move_history = move_history s @ [(fc, fr, tc, tr)]\<rparr>"
proof -
  have wf: "wf_board (board s)" using assms(1) by (simp add: wf_state_def)
  have r: "0 \<le> fc" "fc < 8" "0 \<le> fr" "fr < 8" "0 \<le> tc" "tc < 8" "0 \<le> tr" "tr < 8"
    using assms(2) by (simp_all add: move_in_bounds_def)
  show ?thesis
    using r wf
    by (simp add: make_move_def board_get_in_range board_set_in_range wf_board_set_cell cell_def)
qed

lemma make_move_wf:
  assumes "wf_state s" "move_in_bounds m"
  shows "\<exists>s'. make_move s m = Inr s' \<and> wf_state s'"
proof -
  obtain fc fr tc tr where m: "m = (fc, fr, tc, tr)" by (cases m)
  show ?thesis
    using make_move_in_bounds [of s fc fr tc tr] assms
    by (simp add: m wf_state_def wf_board_set_cell)
qed

lemma set_order_moves: "set (order_moves s ms) = set ms"
  by (simp add: order_moves_def image_image)

lemma length_order_moves: "length (order_moves s ms) = length ms"
  by (simp add: order_moves_def)

subsection \<open>The move the engine returns\<close>

lemma alpha_beta_errors:
  "wf_state s \<Longrightarrow> fst (alpha_beta clock ai s depth alpha beta mx) = Inl e \<Longrightarrow> e = TimeoutError"
  "wf_state s \<Longrightarrow> set moves \<subseteq> set (generate_moves s) \<Longrightarrow>
     fst (alpha_beta_loop clock ai s depth alpha beta mx best moves) = Inl e \<Longrightarrow> e = TimeoutError"
proof (induction clock ai s depth alpha beta mx and clock ai s depth alpha beta mx best moves
    arbitrary: e and e rule: alpha_beta_alpha_beta_loop.induct)
  case (1 clock ai s depth alpha beta maximizing)
  obtain stop ai1 where ss:
    "should_stop clock (ai\<lparr>nodes_searched := nodes_searched ai + 1\<rparr>) = (stop, ai1)"
    by (cases "should_stop clock (ai\<lparr>nodes_searched := nodes_searched ai + 1\<rparr>)")
  obtain over w where it: "is_terminal s = (over, w)"
    by (cases "is_terminal s")
  show ?case
    using "1.prems" "1.IH" [OF ss [symmetric] _ it [symmetric]]
    by (auto simp: alpha_beta.simps ss it set_order_moves split: if_splits)
next
  case (2 clock ai s depth alpha beta maximizing best_score)
  then show ?case by simp
next
  case (3 clock ai s depth alpha beta maximizing best_score move moves)
  have "move_in_bounds move"
    using "3.prems"(2) by (auto intro: generate_moves_in_bounds)
  then obtain s' where s': "make_move s move = Inr s'" "wf_state s'"
    using make_move_wf [OF "3.prems"(1)] by blast
  obtain r ai1 where ab:
    "alpha_beta clock ai s' (depth - 1) (- beta) (- alpha) (\<not> maximizing) = (r, ai1)"
    by (cases "alpha_beta clock ai s' (depth - 1) (- beta) (- alpha) (\<not> maximizing)")
  show ?case
  proof (cases r)
    case (Inl e')
    then have "e = e'" using "3.prems"(3) s' ab by simp
    moreover have "e' = TimeoutError"
      using "3.IH"(1) [OF s'(1) s'(2)] ab Inl by simp
    ultimately show ?thesis by simp
  next
    case (Inr v)
    show ?thesis
    proof (cases "beta \<le> max alpha (- v)")
      case True
      then show ?thesis using "3.prems"(3) s' ab Inr by (simp add: Let_def)
    next
      case False
      then show ?thesis
        using "3.prems" s' ab Inr
          "3.IH"(2) [OF s'(1) ab [symmetric] Inr refl refl refl False "3.prems"(1)]
        by (simp add: Let_def)
    qed
  qed
qed

lemma search_root_loop_result:
  assumes "wf_state s" "set moves \<subseteq> set (generate_moves s)"
  shows "(fst (search_root_loop clock ai s depth alpha beta bm bs moves) = Inl e
            \<longrightarrow> e = TimeoutError)
       \<and> (fst (search_root_loop clock ai s depth alpha beta bm bs moves) = Inr (m, v)
            \<longrightarrow> m \<in> insert bm (set moves))"
  using assms(2)
proof (induction moves arbitrary: ai alpha bm bs)
  case Nil
  show ?case by simp
next
  case (Cons move moves)
  obtain stop ai1 where ss: "should_stop clock ai = (stop, ai1)"
    by (cases "should_stop clock ai")
  have "move_in_bounds move"
    using Cons.prems by (auto intro: generate_moves_in_bounds)
  then obtain s' where s': "make_move s move = Inr s'" "wf_state s'"
    using make_move_wf [OF assms(1)] by blast
  obtain r ai2 where ab: "alpha_beta clock ai1 s' (depth - 1) (- beta) (- alpha) False = (r, ai2)"
    by (cases "alpha_beta clock ai1 s' (depth - 1) (- beta) (- alpha) False")
  show ?case
  proof (cases stop)
    case True
    then show ?thesis by (simp add: ss)
  next
    case False
    show ?thesis
    proof (cases r)
      case (Inl e')
      have "e' = TimeoutError"
        using alpha_beta_errors(1) [OF s'(2), of clock ai1 "depth - 1" "- beta" "- alpha" False e']
          ab Inl by simp
      then show ?thesis using False ss s' ab Inl by simp
    next
      case (Inr w)
      have sub: "set moves \<subseteq> set (generate_moves s)" using Cons.prems by simp
      show ?thesis
        using False ss s' ab Inr
          Cons.IH [OF sub, of ai2 "max alpha (- w)" "if bs < - w then move else bm"
            "if bs < - w then - w else bs"]
        by (auto simp: Let_def)
    qed
  qed
qed

lemma search_root_result:
  assumes "wf_state s"
  shows "(fst (search_root clock ai s depth) = Inl e \<longrightarrow> e = TimeoutError)
       \<and> (fst (search_root clock ai s depth) = Inr (mo, v) \<longrightarrow>
            (generate_moves s = [] \<and> mo = None) \<or> (\<exists>m\<in>set (generate_moves s). mo = Some m))"
proof (cases "generate_moves s = []")
  case True
  then show ?thesis by (simp add: search_root_def)
next
  case False
  let ?ms = "order_moves s (generate_moves s)"
  have ne: "?ms \<noteq> []"
    using False length_order_moves [of s "generate_moves s"] by auto
  then have hd_in: "?ms ! 0 \<in> set (generate_moves s)"
    using set_order_moves [of s "generate_moves s"] nth_mem [of 0 ?ms] by auto
  obtain r ai1 where sl:
    "search_root_loop clock ai s depth MInf PInf (?ms ! 0) MInf ?ms = (r, ai1)"
    by (cases "search_root_loop clock ai s depth MInf PInf (?ms ! 0) MInf ?ms")
  have sub: "set ?ms \<subseteq> set (generate_moves s)" by (simp add: set_order_moves)
  show ?thesis
  proof (cases r)
    case (Inl e')
    then show ?thesis
      using False sl search_root_loop_result [OF assms sub, of clock ai depth MInf PInf "?ms ! 0" MInf e']
      by (simp add: search_root_def Let_def)
  next
    case (Inr mv)
    obtain m w where mv: "mv = (m, w)" by (cases mv)
    have "m \<in> set (generate_moves s)"
      using sl Inr mv hd_in sub
        search_root_loop_result [OF assms sub, of clock ai depth MInf PInf "?ms ! 0" MInf e m w]
      by auto
    then show ?thesis
      using False sl Inr mv by (auto simp: search_root_def Let_def)
  qed
qed

lemma deepening_loop_result:
  assumes "wf_state s" "bm \<in> set (generate_moves s)"
  shows "\<exists>m ai'. deepening_loop clock ai s bm depths = (Inr m, ai') \<and> m \<in> set (generate_moves s)"
  using assms(2)
proof (induction depths arbitrary: ai bm)
  case Nil
  then show ?case by simp
next
  case (Cons depth depths)
  obtain stop ai1 where ss: "should_stop clock ai = (stop, ai1)"
    by (cases "should_stop clock ai")
  obtain r ai2 where sr: "search_root clock ai1 s depth = (r, ai2)"
    by (cases "search_root clock ai1 s depth")
  show ?case
  proof (cases stop)
    case True
    then show ?thesis using Cons.prems by (simp add: ss)
  next
    case False
    show ?thesis
    proof (cases r)
      case (Inl e)
      then have "e = TimeoutError"
        using search_root_result [OF assms(1), of clock ai1 depth e] sr by simp
      then show ?thesis using False ss sr Inl Cons.prems by simp
    next
      case (Inr res)
      obtain mo v where res: "res = (mo, v)" by (cases res)
      let ?bm1 = "case mo of Some m \<Rightarrow> m | None \<Rightarrow> bm"
      have bm1: "?bm1 \<in> set (generate_moves s)"
        using search_root_result [OF assms(1), of clock ai1 depth _ mo v] sr Inr res Cons.prems
        by (auto split: option.splits)
      let ?ai3 = "case mo of Some m \<Rightarrow> ai2\<lparr>max_depth_reached := depth\<rparr> | None \<Rightarrow> ai2"
      show ?thesis
      proof (cases "Fin (WIN_VALUE - 100) \<le> v")
        case True
        then have "deepening_loop clock ai s bm (depth # depths) = (Inr ?bm1, ?ai3)"
          using False ss sr Inr res by (simp add: Let_def)
        then show ?thesis using bm1 by blast
      next
        case win: False
        then have "deepening_loop clock ai s bm (depth # depths)
            = deepening_loop clock ?ai3 s ?bm1 depths"
          using False ss sr Inr res by (simp add: Let_def)
        then show ?thesis using Cons.IH [OF bm1, of ?ai3] by simp
      qed
    qed
  qed
qed

lemma initial_moves:
  "generate_moves initial_position =
     [(0, 1, 0, 2), (0, 1, 0, 3), (1, 1, 1, 2), (1, 1, 1, 3), (2, 1, 2, 2), (2, 1, 2, 3),
      (3, 1, 3, 2), (3, 1, 3, 3), (4, 1, 4, 2), (4, 1, 4, 3), (5, 1, 5, 2), (5, 1, 5, 3),
      (6, 1, 6, 2), (6, 1, 6, 3), (7, 1, 7, 2), (7, 1, 7, 3)]"
  by code_simp

lemma initial_ordered_first:
  "order_moves initial_position (generate_moves initial_position) ! 0 = (2, 1, 2, 3)"
  by code_simp

lemma wf_initial_position: "wf_state initial_position"
  by code_simp

lemma initial_ordered:
  "order_moves initial_position (generate_moves initial_position) =
     [(2, 1, 2, 3), (3, 1, 3, 3), (4, 1, 4, 3), (5, 1, 5, 3), (0, 1, 0, 3), (1, 1, 1, 3),
      (6, 1, 6, 3), (7, 1, 7, 3), (2, 1, 2, 2), (3, 1, 3, 2), (4, 1, 4, 2), (5, 1, 5, 2),
      (0, 1, 0, 2), (1, 1, 1, 2), (6, 1, 6, 2), (7, 1, 7, 2)]"
  by code_simp

text \<open>
  C6, as stated: when no depth completes, the move returned is the first of the
  ordered moves. It fails on the initial position, both with the deadline already
  passed at the first reading of the clock and with the deadline passing after it,
  so that the search at depth 1 is aborted: the engine returns \<open>a2a3\<close>, the first
  generated move, and the first ordered move is \<open>c2c4\<close>.
\<close>

theorem get_best_move_counterexample:
  "fst (get_best_move (\<lambda>k. True) (TwoFlagsAI_init WHITE) initial_position)
     = Inr (Some (0, 1, 0, 2))
   \<and> fst (get_best_move (\<lambda>k. 1 \<le> k) (TwoFlagsAI_init WHITE) initial_position)
     = Inr (Some (0, 1, 0, 2))
   \<and> order_moves initial_position (generate_moves initial_position) ! 0 = (2, 1, 2, 3)"
  by (simp add: get_best_move_def initial_moves should_stop_def upto.simps search_root_def
      initial_ordered [simplified initial_moves] TwoFlagsAI_init_def)

text \<open>
  C6, amended: on an eight by eight board \<open>get_best_move\<close> returns no move exactly
  when the position has no legal move; otherwise it returns a legal move; and when no
  depth completes, the deadline being passed at the first reading of the clock or
  the search at depth 1 being aborted, the move returned is the first legal move in
  the order of generation.
\<close>

theorem get_best_move_result:
  assumes "wf_state s"
  shows "(fst (get_best_move clock ai s) = Inr None \<longleftrightarrow> generate_moves s = [])
       \<and> (generate_moves s \<noteq> [] \<longrightarrow>
            (\<exists>m\<in>set (generate_moves s). fst (get_best_move clock ai s) = Inr (Some m)))
       \<and> (generate_moves s \<noteq> []
            \<and> (clock 0
                \<or> fst (search_root clock (ai\<lparr>nodes_searched := 0, clock_reads := 1\<rparr>) s 1)
                    = Inl TimeoutError) \<longrightarrow>
            fst (get_best_move clock ai s) = Inr (Some (generate_moves s ! 0)))"
proof (cases "generate_moves s = []")
  case True
  then show ?thesis by (simp add: get_best_move_def)
next
  case False
  let ?ai0 = "ai\<lparr>nodes_searched := 0, clock_reads := 0\<rparr>"
  let ?m0 = "generate_moves s ! 0"
  have m0: "?m0 \<in> set (generate_moves s)" using False by simp
  obtain m ai' where dl: "deepening_loop clock ?ai0 s ?m0 [1..49] = (Inr m, ai')"
    "m \<in> set (generate_moves s)"
    using deepening_loop_result [OF assms m0] by blast
  have some: "\<exists>m\<in>set (generate_moves s). fst (get_best_move clock ai s) = Inr (Some m)"
    using False m0 dl by (auto simp: get_best_move_def Let_def)
  have first: "fst (get_best_move clock ai s) = Inr (Some ?m0)"
    if "clock 0 \<or> fst (search_root clock (ai\<lparr>nodes_searched := 0, clock_reads := 1\<rparr>) s 1)
          = Inl TimeoutError"
  proof -
    have u: "[1..49] = 1 # [2..49]" by (simp add: upto.simps)
    obtain r ai2 where sr:
      "search_root clock (ai\<lparr>nodes_searched := 0, clock_reads := 1\<rparr>) s 1 = (r, ai2)"
      by (cases "search_root clock (ai\<lparr>nodes_searched := 0, clock_reads := 1\<rparr>) s 1")
    have "\<exists>ai'. deepening_loop clock ?ai0 s ?m0 [1..49] = (Inr ?m0, ai')"
      using that sr unfolding u by (auto simp: should_stop_def)
    then show ?thesis
      using False by (auto simp: get_best_move_def Let_def)
  qed
  show ?thesis using False some first by auto
qed

theorem get_best_move_result_witness:
  "wf_state initial_position \<and> generate_moves initial_position \<noteq> []
   \<and> fst (get_best_move (\<lambda>k. True) (TwoFlagsAI_init WHITE) initial_position)
       = Inr (Some (generate_moves initial_position ! 0))"
  using get_best_move_result [OF wf_initial_position, of "\<lambda>k. True" "TwoFlagsAI_init WHITE"]
  by (simp add: wf_initial_position initial_moves)

subsection \<open>Pruned and full-width search\<close>

lemma pynum_neg_neg [simp]: "- (- (a::pynum)) = a"
  by (cases a) simp_all

lemma pynum_neg_le [simp]: "(- (a::pynum) \<le> - b) = (b \<le> a)"
  by (cases a; cases b) simp_all

lemma pynum_neg_less [simp]: "(- (a::pynum) < - b) = (b < a)"
  by (simp add: less_pynum_def)

lemma pynum_neg_eq [simp]: "(- (a::pynum) = - b) = (a = b)"
  by (cases a; cases b) simp_all

lemma pynum_MInf_le [simp]: "MInf \<le> (a::pynum)"
  by simp

lemma pynum_le_MInf [simp]: "((a::pynum) \<le> MInf) = (a = MInf)"
  by (cases a) simp_all

lemma pynum_PInf_le [simp]: "(PInf \<le> (a::pynum)) = (a = PInf)"
  by (cases a) simp_all

lemma pynum_le_PInf [simp]: "(a::pynum) \<le> PInf"
  by (cases a) simp_all

lemma pynum_Fin_less_PInf [simp]: "Fin i < PInf"
  by (simp add: less_pynum_def)

lemma pynum_MInf_less_Fin [simp]: "MInf < Fin i"
  by (simp add: less_pynum_def)

lemma pynum_max_MInf [simp]: "max MInf (a::pynum) = a" "max a MInf = a"
  by (cases a; simp add: max_def)+

lemma pynum_finite: "a \<noteq> MInf \<Longrightarrow> a \<noteq> PInf \<Longrightarrow> \<exists>i. a = Fin i"
  by (cases a) simp_all

lemma within_window_refl: "within_window alpha beta v v"
  by (simp add: within_window_def)

lemma within_window_neg:
  "within_window (- beta) (- alpha) r v \<Longrightarrow> within_window alpha beta (- r) (- v)"
  unfolding within_window_def
  by (metis pynum_neg_le pynum_neg_less pynum_neg_neg)

lemma within_window_full: "within_window MInf PInf (Fin i) v \<Longrightarrow> v = Fin i"
  by (simp add: within_window_def)

lemma window_cutoff:
  assumes "alpha < beta" "best \<le> alpha" "within_window alpha beta score t"
    and "beta \<le> max alpha score"
  shows "within_window alpha beta (max best score) (max t w0)"
  using assms unfolding within_window_def
  by (auto simp: max_def split: if_splits)

lemma window_step:
  assumes "alpha < beta" "best \<le> alpha" "within_window alpha beta score t"
    and "max alpha score < beta" "max best score \<le> r"
    and "within_window (max alpha score) beta r w0"
  shows "within_window alpha beta r (max t w0)"
  using assms unfolding within_window_def
  by (auto simp: max_def split: if_splits)


lemma reached_end_over: "reached_end s cols = Some r \<Longrightarrow> fst r"
  by (induction cols) (auto split: if_splits)

lemma not_terminal_moves: "is_terminal s = (False, w) \<Longrightarrow> generate_moves s \<noteq> []"
  by (auto simp: is_terminal_def Let_def split: option.splits if_splits dest: reached_end_over)

lemma full_width_children_acc:
  "full_width_children c ev s d b ms =
     (case full_width_children c ev s d MInf ms of
        Inl e \<Rightarrow> Inl e
      | Inr w \<Rightarrow> Inr (max b w))"
proof (induction ms arbitrary: b)
  case Nil
  show ?case by simp
next
  case (Cons m ms)
  show ?case
  proof (cases "make_move s m")
    case (Inl e)
    then show ?thesis by simp
  next
    case s': (Inr s')
    show ?thesis
    proof (cases "full_width_negamax c ev s' (d - 1)")
      case (Inl e)
      then show ?thesis using s' by simp
    next
      case (Inr r)
      show ?thesis
        using s' Inr Cons.IH [of "max b (- r)"] Cons.IH [of "- r"]
        by (auto simp: max.assoc split: sum.splits)
    qed
  qed
qed

lemma full_width_total:
  "wf_state s \<Longrightarrow> \<exists>j. full_width_negamax c ev s d = Inr (Fin j)"
  "wf_state s \<Longrightarrow> set ms \<subseteq> set (generate_moves s) \<Longrightarrow> b \<noteq> PInf \<Longrightarrow>
     \<exists>w. full_width_children c ev s d b ms = Inr w \<and> w \<noteq> PInf \<and> (ms \<noteq> [] \<longrightarrow> w \<noteq> MInf)"
proof (induction c ev s d and c ev s d b ms rule: full_width_negamax_full_width_children.induct)
  case (1 c ev s depth)
  obtain over w where it: "is_terminal s = (over, w)" by (cases "is_terminal s")
  show ?case
  proof (cases "over \<or> depth \<le> 0")
    case True
    then show ?thesis by (auto simp: full_width_negamax.simps it)
  next
    case False
    have ne: "order_moves s (generate_moves s) \<noteq> []"
      using False it not_terminal_moves [of s w] length_order_moves [of s "generate_moves s"]
      by auto
    obtain v where "full_width_children c ev s depth MInf (order_moves s (generate_moves s)) = Inr v"
      "v \<noteq> PInf" "v \<noteq> MInf"
      using "1.IH" [OF it [symmetric] _ _ "1.prems"] False ne by (auto simp: set_order_moves)
    then show ?thesis
      using False it pynum_finite [of v] by (auto simp: full_width_negamax.simps)
  qed
next
  case (2 c ev s depth best_score)
  then show ?case by simp
next
  case (3 c ev s depth best_score move moves)
  have "move_in_bounds move"
    using "3.prems"(2) by (auto intro: generate_moves_in_bounds)
  then obtain s' where s': "make_move s move = Inr s'" "wf_state s'"
    using make_move_wf [OF "3.prems"(1)] by blast
  obtain j where j: "full_width_negamax c ev s' (depth - 1) = Inr (Fin j)"
    using "3.IH"(1) [OF s'] by blast
  have sub: "set moves \<subseteq> set (generate_moves s)" using "3.prems"(2) by simp
  have nb: "max best_score (- Fin j) \<noteq> PInf" "max best_score (- Fin j) \<noteq> MInf"
    using "3.prems"(3) by (cases best_score; simp add: max_def)+
  obtain w where w: "full_width_children c ev s depth (max best_score (- Fin j)) moves = Inr w"
    "w \<noteq> PInf"
    using "3.IH"(2) [OF s'(1) j "3.prems"(1) sub nb(1)] by blast
  have "w \<noteq> MInf"
    using w(1) nb(2) full_width_children_acc [of c ev s depth "max best_score (- Fin j)" moves]
    by (auto simp: max_def split: sum.splits if_splits)
  then show ?case using s' j w by simp
qed

lemma pynum_not_less [simp]: "\<not> PInf < (a::pynum)" "\<not> (a::pynum) < MInf"
  by (cases a; simp add: less_pynum_def)+

lemma should_stop_never:
  "should_stop (\<lambda>k. False) ai = (False, ai\<lparr>clock_reads := Suc (clock_reads ai)\<rparr>)"
  by (simp add: should_stop_def)

lemma alpha_beta_window:
  "clock = (\<lambda>k. False) \<Longrightarrow> wf_state s \<Longrightarrow> alpha < beta \<Longrightarrow>
     \<exists>i ai'. alpha_beta clock ai s depth alpha beta mx = (Inr (Fin i), ai')
       \<and> color ai' = color ai \<and> evaluator ai' = evaluator ai
       \<and> (\<forall>v. full_width_negamax (color ai) (evaluator ai) s depth = Inr v
              \<longrightarrow> within_window alpha beta (Fin i) v)"
  "clock = (\<lambda>k. False) \<Longrightarrow> wf_state s \<Longrightarrow> set moves \<subseteq> set (generate_moves s) \<Longrightarrow>
   alpha < beta \<Longrightarrow> best \<le> alpha \<Longrightarrow>
     \<exists>r ai'. alpha_beta_loop clock ai s depth alpha beta mx best moves = (Inr r, ai')
       \<and> color ai' = color ai \<and> evaluator ai' = evaluator ai
       \<and> best \<le> r \<and> r \<noteq> PInf \<and> (moves \<noteq> [] \<longrightarrow> r \<noteq> MInf)
       \<and> (\<forall>w. full_width_children (color ai) (evaluator ai) s depth MInf moves = Inr w
              \<longrightarrow> within_window alpha beta r w)"
proof (induction clock ai s depth alpha beta mx and clock ai s depth alpha beta mx best moves
    rule: alpha_beta_alpha_beta_loop.induct)
  case (1 clock ai s depth alpha beta maximizing)
  let ?ai1 = "ai\<lparr>nodes_searched := nodes_searched ai + 1,
                  clock_reads := Suc (clock_reads ai)\<rparr>"
  have ss: "should_stop clock (ai\<lparr>nodes_searched := nodes_searched ai + 1\<rparr>) = (False, ?ai1)"
    using "1.prems"(1) by (simp add: should_stop_def)
  obtain over w where it: "is_terminal s = (over, w)" by (cases "is_terminal s")
  show ?case
  proof (cases "over \<or> depth \<le> 0")
    case True
    then show ?thesis
      by (auto simp: alpha_beta.simps full_width_negamax.simps ss it within_window_refl)
  next
    case False
    let ?ms = "order_moves s (generate_moves s)"
    have ne: "?ms \<noteq> []"
      using False it not_terminal_moves [of s w] length_order_moves [of s "generate_moves s"]
      by auto
    have sub: "set ?ms \<subseteq> set (generate_moves s)" by (simp add: set_order_moves)
    obtain r ai' where r:
      "alpha_beta_loop clock ?ai1 s depth alpha beta maximizing MInf ?ms = (Inr r, ai')"
      "color ai' = color ?ai1" "evaluator ai' = evaluator ?ai1" "r \<noteq> PInf" "r \<noteq> MInf"
      "\<forall>w. full_width_children (color ?ai1) (evaluator ?ai1) s depth MInf ?ms = Inr w
             \<longrightarrow> within_window alpha beta r w"
      using "1.IH" [OF ss [symmetric] _ it [symmetric] _ _ "1.prems"(1,2) sub "1.prems"(3)]
        False ne by auto
    obtain i where i: "r = Fin i" using pynum_finite r(4,5) by blast
    show ?thesis
      using False it ss r i by (auto simp: alpha_beta.simps full_width_negamax.simps)
  qed
next
  case (2 clock ai s depth alpha beta maximizing best_score)
  then show ?case by (auto simp: within_window_def)
next
  case (3 clock ai s depth alpha beta maximizing best_score move moves)
  let ?c = "color ai" and ?ev = "evaluator ai"
  have "move_in_bounds move"
    using "3.prems"(3) by (auto intro: generate_moves_in_bounds)
  then obtain s' where s': "make_move s move = Inr s'" "wf_state s'"
    using make_move_wf [OF "3.prems"(2)] by blast
  have nw: "- beta < - alpha" using "3.prems"(4) by simp
  obtain i ai1 where ab:
    "alpha_beta clock ai s' (depth - 1) (- beta) (- alpha) (\<not> maximizing) = (Inr (Fin i), ai1)"
    "color ai1 = ?c" "evaluator ai1 = ?ev"
    "\<forall>v. full_width_negamax ?c ?ev s' (depth - 1) = Inr v
          \<longrightarrow> within_window (- beta) (- alpha) (Fin i) v"
    using "3.IH"(1) [OF s'(1) "3.prems"(1) s'(2) nw] by blast
  obtain j where j: "full_width_negamax ?c ?ev s' (depth - 1) = Inr (Fin j)"
    using full_width_total(1) [OF s'(2)] by blast
  let ?score = "- Fin i" and ?t = "- Fin j"
  have win: "within_window alpha beta ?score ?t"
    using ab(4) j within_window_neg by blast
  have sub: "set moves \<subseteq> set (generate_moves s)" using "3.prems"(3) by simp
  obtain w0 where w0: "full_width_children ?c ?ev s depth MInf moves = Inr w0"
    using full_width_total(2) [OF "3.prems"(2) sub, of MInf ?c ?ev depth] by auto
  have whole: "full_width_children ?c ?ev s depth MInf (move # moves) = Inr (max ?t w0)"
    using s' j w0 full_width_children_acc [of ?c ?ev s depth ?t moves] by simp
  have bnp: "best_score \<noteq> PInf" using "3.prems"(4,5) by auto
  show ?case
  proof (cases "beta \<le> max alpha ?score")
    case True
    have res: "alpha_beta_loop clock ai s depth alpha beta maximizing best_score (move # moves)
        = (Inr (max best_score ?score), ai1)"
      using s' ab(1) True by (simp add: Let_def)
    have "within_window alpha beta (max best_score ?score) (max ?t w0)"
      using window_cutoff [OF "3.prems"(4,5) win True] .
    moreover have "max best_score ?score \<noteq> PInf" "max best_score ?score \<noteq> MInf"
      using bnp by (cases best_score; simp add: max_def)+
    ultimately show ?thesis
      using res ab(2,3) whole by auto
  next
    case False
    let ?alpha1 = "max alpha ?score" and ?best1 = "max best_score ?score"
    have a1: "?alpha1 < beta" using False by (meson not_le)
    have b1: "?best1 \<le> ?alpha1" using "3.prems"(5) by (auto simp: max_def)
    obtain r ai' where r:
      "alpha_beta_loop clock ai1 s depth ?alpha1 beta maximizing ?best1 moves = (Inr r, ai')"
      "color ai' = color ai1" "evaluator ai' = evaluator ai1" "?best1 \<le> r" "r \<noteq> PInf"
      "\<forall>w. full_width_children (color ai1) (evaluator ai1) s depth MInf moves = Inr w
            \<longrightarrow> within_window ?alpha1 beta r w"
      using "3.IH"(2) [OF s'(1) ab(1) [symmetric] refl refl refl refl False "3.prems"(1,2) sub a1 b1]
      by blast
    have res: "alpha_beta_loop clock ai s depth alpha beta maximizing best_score (move # moves)
        = (Inr r, ai')"
      using s' ab(1) False r(1) by (simp add: Let_def)
    have "within_window alpha beta r (max ?t w0)"
      using window_step [OF "3.prems"(4,5) win a1 r(4)] r(6) w0 ab(2,3) by simp
    moreover have "best_score \<le> r" using r(4) by simp
    moreover have "r \<noteq> MInf" using r(4) by (auto simp: max_def split: if_splits)
    ultimately show ?thesis
      using res r(2,3,5) ab(2,3) whole by auto
  qed
qed

lemma pynum_less_PInf: "(a < PInf) = (a \<noteq> PInf)"
  by (cases a) (simp_all add: less_pynum_def)

lemma search_root_loop_window:
  assumes "wf_state s"
  shows "set moves \<subseteq> set (generate_moves s) \<Longrightarrow> alpha \<noteq> PInf \<Longrightarrow> bs \<le> alpha \<Longrightarrow>
     \<exists>m r ai'. search_root_loop (\<lambda>k. False) ai s depth alpha PInf bm bs moves = (Inr (m, r), ai')
       \<and> bs \<le> r \<and> r \<noteq> PInf \<and> (moves \<noteq> [] \<longrightarrow> r \<noteq> MInf)
       \<and> (\<forall>w. full_width_children (color ai) (evaluator ai) s depth MInf moves = Inr w
              \<longrightarrow> within_window alpha PInf r w)"
proof (induction moves arbitrary: ai alpha bm bs)
  case Nil
  have "search_root_loop (\<lambda>k. False) ai s depth alpha PInf bm bs [] = (Inr (bm, bs), ai)"
    by simp
  moreover have "bs \<noteq> PInf" using Nil by auto
  ultimately show ?case using Nil by (fastforce simp: within_window_def)
next
  case (Cons move moves)
  let ?c = "color ai" and ?ev = "evaluator ai"
  let ?ai1 = "ai\<lparr>clock_reads := Suc (clock_reads ai)\<rparr>"
  have "move_in_bounds move"
    using Cons.prems(1) by (auto intro: generate_moves_in_bounds)
  then obtain s' where s': "make_move s move = Inr s'" "wf_state s'"
    using make_move_wf [OF assms] by blast
  have ab0: "alpha < PInf" using Cons.prems(2) by (simp add: pynum_less_PInf)
  then have nw: "- PInf < - alpha" by (simp only: pynum_neg_less)
  obtain i ai2 where ab:
    "alpha_beta (\<lambda>k. False) ?ai1 s' (depth - 1) (- PInf) (- alpha) False = (Inr (Fin i), ai2)"
    "color ai2 = ?c" "evaluator ai2 = ?ev"
    "\<forall>v. full_width_negamax ?c ?ev s' (depth - 1) = Inr v
          \<longrightarrow> within_window (- PInf) (- alpha) (Fin i) v"
    using alpha_beta_window(1) [OF refl s'(2) nw, of ?ai1 "depth - 1" False] by auto
  obtain j where j: "full_width_negamax ?c ?ev s' (depth - 1) = Inr (Fin j)"
    using full_width_total(1) [OF s'(2)] by blast
  let ?score = "- Fin i" and ?t = "- Fin j"
  have win: "within_window alpha PInf ?score ?t"
    using ab(4) j within_window_neg by blast
  have sub: "set moves \<subseteq> set (generate_moves s)" using Cons.prems(1) by simp
  obtain w0 where w0: "full_width_children ?c ?ev s depth MInf moves = Inr w0"
    using full_width_total(2) [OF assms sub, of MInf ?c ?ev depth] by auto
  have whole: "full_width_children ?c ?ev s depth MInf (move # moves) = Inr (max ?t w0)"
    using s' j w0 full_width_children_acc [of ?c ?ev s depth ?t moves] by simp
  let ?alpha1 = "max alpha ?score" and ?best1 = "max bs ?score"
  have best1: "(if bs < ?score then ?score else bs) = ?best1"
    by (auto simp: max_def)
  have a1: "?alpha1 \<noteq> PInf" using Cons.prems(2) by (cases alpha; simp add: max_def)
  have a1': "?alpha1 < PInf" using a1 pynum_less_PInf by blast
  have b1: "?best1 \<le> ?alpha1" using Cons.prems(3) by (auto simp: max_def)
  obtain m r ai' where r:
    "search_root_loop (\<lambda>k. False) ai2 s depth ?alpha1 PInf
       (if bs < ?score then move else bm) ?best1 moves = (Inr (m, r), ai')"
    "?best1 \<le> r" "r \<noteq> PInf"
    "\<forall>w. full_width_children (color ai2) (evaluator ai2) s depth MInf moves = Inr w
          \<longrightarrow> within_window ?alpha1 PInf r w"
    using Cons.IH [OF sub a1 b1, of ai2 "if bs < ?score then move else bm"] by blast
  have res: "search_root_loop (\<lambda>k. False) ai s depth alpha PInf bm bs (move # moves)
      = (Inr (m, r), ai')"
    using s' ab(1) r(1)
    by (simp add: should_stop_def Let_def best1 del: uminus_pynum.simps max.absorb1 max.absorb2 max.absorb3 max.absorb4)
  have "within_window alpha PInf r (max ?t w0)"
    using window_step [OF ab0 Cons.prems(3) win a1' r(2)] r(4) w0 ab(2,3) by simp
  then have ww: "\<forall>w. full_width_children ?c ?ev s depth MInf (move # moves) = Inr w
      \<longrightarrow> within_window alpha PInf r w"
    unfolding whole by simp
  have "bs \<le> r" using r(2) by simp
  moreover have "r \<noteq> MInf" using r(2) by (auto simp: max_def split: if_splits)
  ultimately show ?case
    using res r(3) ww by blast
qed

text \<open>
  C4. On an eight by eight board, with a clock that never reports the deadline
  passed, \<open>search_root\<close> at any depth returns a score, and that score is the value of
  the full-width negamax search of the same position at the same depth.
\<close>

theorem search_root_full_width:
  assumes "wf_state s"
  shows "\<exists>mo v ai'. search_root (\<lambda>k. False) ai s depth = (Inr (mo, v), ai')
           \<and> full_width_root (color ai) (evaluator ai) s depth = Inr v"
proof (cases "generate_moves s = []")
  case True
  then show ?thesis by (simp add: search_root_def full_width_root_def)
next
  case False
  let ?ms = "order_moves s (generate_moves s)"
  have ne: "?ms \<noteq> []"
    using False length_order_moves [of s "generate_moves s"] by auto
  have sub: "set ?ms \<subseteq> set (generate_moves s)" by (simp add: set_order_moves)
  obtain m r ai' where r:
    "search_root_loop (\<lambda>k. False) ai s depth MInf PInf (?ms ! 0) MInf ?ms = (Inr (m, r), ai')"
    "r \<noteq> PInf" "r \<noteq> MInf"
    "\<forall>w. full_width_children (color ai) (evaluator ai) s depth MInf ?ms = Inr w
          \<longrightarrow> within_window MInf PInf r w"
    using search_root_loop_window [OF assms sub, of MInf MInf ai depth "?ms ! 0"] ne by auto
  obtain i where i: "r = Fin i" using pynum_finite r(2,3) by blast
  obtain w where w: "full_width_children (color ai) (evaluator ai) s depth MInf ?ms = Inr w"
    using full_width_total(2) [OF assms sub, of MInf "color ai" "evaluator ai" depth] by auto
  have "w = r" using r(4) w i within_window_full by blast
  then show ?thesis
    using False r(1) w by (simp add: search_root_def full_width_root_def Let_def)
qed

theorem search_root_full_width_witness:
  "wf_state initial_position
   \<and> (\<exists>mo v ai'. search_root (\<lambda>k. False) (TwoFlagsAI_init WHITE) initial_position 3
                    = (Inr (mo, v), ai')
        \<and> full_width_root WHITE Evaluator_init initial_position 3 = Inr v)"
  using search_root_full_width [OF wf_initial_position, of "TwoFlagsAI_init WHITE" 3]
  by (simp add: wf_initial_position TwoFlagsAI_init_def)

subsection \<open>Bounds on the evaluation\<close>

lemma cell_cap_white: "(\<Sum>p\<leftarrow>all_cells. cell_cap WHITE p) = 9940"
  by code_simp

lemma cell_cap_black: "(\<Sum>p\<leftarrow>all_cells. cell_cap BLACK p) = 9940"
  by code_simp

lemma row_pieces:
  "concat (map (\<lambda>col. if Q col then [(col, row)] else []) cs)
     = filter (\<lambda>p. Q (fst p)) (map (\<lambda>col. (col, row)) cs)"
  by (induction cs) simp_all

lemma get_all_pieces_filter:
  "get_all_pieces s c = filter (\<lambda>p. cell s (fst p) (snd p) = c) all_cells"
proof -
  have "concat (map (\<lambda>row. concat (map (\<lambda>col. if cell s col row = c then [(col, row)] else []) cs)) rs)
      = filter (\<lambda>p. cell s (fst p) (snd p) = c) (concat (map (\<lambda>row. map (\<lambda>col. (col, row)) cs) rs))"
    for cs rs :: "int list"
  proof (induction rs)
    case Nil
    show ?case by simp
  next
    case (Cons r rs)
    have "concat (map (\<lambda>col. if cell s col r = c then [(col, r)] else []) cs)
        = filter (\<lambda>p. cell s (fst p) (snd p) = c) (map (\<lambda>col. (col, r)) cs)"
      by (induction cs) simp_all
    then show ?case using Cons.IH by simp
  qed
  then show ?thesis
    by (simp add: get_all_pieces_def all_cells_def)
qed

lemma all_cells_range:
  "p \<in> set all_cells \<Longrightarrow> 0 \<le> fst p \<and> fst p \<le> 7 \<and> 0 \<le> snd p \<and> snd p \<le> 7"
  by (auto simp: all_cells_def)

lemma reached_end_none_cells:
  "reached_end s cols = None \<Longrightarrow> k \<in> set cols \<Longrightarrow> cell s k 7 \<noteq> WHITE \<and> cell s k 0 \<noteq> BLACK"
  by (induction cols) (auto split: if_splits)

lemma not_terminal_facts:
  assumes "is_terminal s = (False, w)"
  shows "reached_end s [0..7] = None" "get_all_pieces s WHITE \<noteq> []" "get_all_pieces s BLACK \<noteq> []"
  using assms
  by (auto simp: is_terminal_def Let_def split: option.splits if_splits dest: reached_end_over)

lemma white_black_distinct: "WHITE \<noteq> BLACK"
  by (simp add: WHITE_def BLACK_def)

lemma advancement_range:
  assumes "is_terminal s = (False, w)" "k = WHITE \<or> k = BLACK"
    and "p \<in> set (get_all_pieces s k)"
  shows "0 \<le> advancement_of k p \<and> advancement_of k p \<le> 6"
proof -
  have c: "cell s (fst p) (snd p) = k" and pc: "p \<in> set all_cells"
    using assms(3) by (simp_all add: get_all_pieces_filter)
  have r: "0 \<le> fst p" "fst p \<le> 7" "0 \<le> snd p" "snd p \<le> 7"
    using all_cells_range [OF pc] by simp_all
  have "fst p \<in> set [0..7]" using r by simp
  then have e: "cell s (fst p) 7 \<noteq> WHITE" "cell s (fst p) 0 \<noteq> BLACK"
    using reached_end_none_cells [OF not_terminal_facts(1) [OF assms(1)]] by blast+
  show ?thesis
  proof (cases "k = WHITE")
    case True
    then have "snd p \<noteq> 7" using c e(1) by auto
    then show ?thesis using True r by (simp add: advancement_of_def)
  next
    case False
    then have k: "k = BLACK" using assms(2) by simp
    then have "snd p \<noteq> 0" using c e(2) by auto
    then show ?thesis using k r white_black_distinct by (simp add: advancement_of_def)
  qed
qed

lemma own_term_bounds:
  assumes "0 \<le> advancement_of k p" "advancement_of k p \<le> 6"
  shows "0 \<le> own_term Evaluator_init s k p"
    and "100 + own_term Evaluator_init s k p \<le> cell_cap k p"
    and "100 + own_term Evaluator_init s k p \<le> 225"
  using assms by (auto simp: own_term_def Evaluator_init_def cell_cap_def)

lemma their_term_bounds:
  assumes "0 \<le> advancement_of k p" "advancement_of k p \<le> 6"
  shows "0 \<le> their_term Evaluator_init s k p"
    and "100 + their_term Evaluator_init s k p \<le> cell_cap k p"
    and "100 + their_term Evaluator_init s k p \<le> 225"
  using assms by (auto simp: their_term_def Evaluator_init_def cell_cap_def)

lemma cell_cap_nonneg: "p \<in> set all_cells \<Longrightarrow> 0 \<le> cell_cap k p"
  by (auto simp: cell_cap_def advancement_of_def dest: all_cells_range)

lemma sum_filter_le:
  fixes g h :: "'a \<Rightarrow> int"
  assumes "\<forall>x\<in>set xs. (P x \<longrightarrow> g x \<le> h x) \<and> 0 \<le> h x"
  shows "(\<Sum>x\<leftarrow>filter P xs. g x) \<le> (\<Sum>x\<leftarrow>xs. h x)"
  using assms
proof (induction xs)
  case Nil
  show ?case by simp
next
  case (Cons x xs)
  then have "(\<Sum>x\<leftarrow>filter P xs. g x) \<le> (\<Sum>x\<leftarrow>xs. h x)" by simp
  moreover have "P x \<longrightarrow> g x \<le> h x" "0 \<le> h x" using Cons.prems by simp_all
  ultimately show ?case by auto
qed

lemma sum_le_count:
  fixes g :: "'a \<Rightarrow> int"
  assumes "\<forall>x\<in>set xs. g x \<le> K"
  shows "(\<Sum>x\<leftarrow>xs. g x) \<le> int (length xs) * K"
  using assms by (induction xs) (auto simp: algebra_simps)

lemma sum_nonneg:
  fixes g :: "'a \<Rightarrow> int"
  assumes "\<forall>x\<in>set xs. 0 \<le> g x"
  shows "0 \<le> (\<Sum>x\<leftarrow>xs. g x)"
  using assms by (induction xs) auto

lemma sum_plus_100:
  fixes g :: "'a \<Rightarrow> int"
  shows "(\<Sum>x\<leftarrow>xs. 100 + g x) = int (length xs) * 100 + (\<Sum>x\<leftarrow>xs. g x)"
  by (induction xs) (auto simp: algebra_simps)

lemma cell_cap_total: "k = WHITE \<or> k = BLACK \<Longrightarrow> (\<Sum>p\<leftarrow>all_cells. cell_cap k p) = 9940"
  using cell_cap_white cell_cap_black by auto

lemma own_side_bounds:
  assumes "is_terminal s = (False, w)" "k = WHITE \<or> k = BLACK"
  shows "(\<Sum>p\<leftarrow>get_all_pieces s k. 100 + own_term Evaluator_init s k p) \<le> 9940"
    and "(\<Sum>p\<leftarrow>get_all_pieces s k. 100 + own_term Evaluator_init s k p)
           \<le> int (length (get_all_pieces s k)) * 225"
    and "100 \<le> (\<Sum>p\<leftarrow>get_all_pieces s k. 100 + own_term Evaluator_init s k p)"
proof -
  let ?g = "\<lambda>p. 100 + own_term Evaluator_init s k p"
  let ?P = "\<lambda>p. cell s (fst p) (snd p) = k"
  have adv: "0 \<le> advancement_of k p \<and> advancement_of k p \<le> 6"
    if "p \<in> set (get_all_pieces s k)" for p
    using advancement_range [OF assms that] .
  have "\<forall>p\<in>set all_cells. (?P p \<longrightarrow> ?g p \<le> cell_cap k p) \<and> 0 \<le> cell_cap k p"
    using adv own_term_bounds(2) cell_cap_nonneg by (auto simp: get_all_pieces_filter)
  then have "(\<Sum>p\<leftarrow>filter ?P all_cells. ?g p) \<le> (\<Sum>p\<leftarrow>all_cells. cell_cap k p)"
    by (rule sum_filter_le)
  then show "(\<Sum>p\<leftarrow>get_all_pieces s k. ?g p) \<le> 9940"
    using cell_cap_total [OF assms(2)] by (simp only: get_all_pieces_filter)
  have "\<forall>p\<in>set (get_all_pieces s k). ?g p \<le> 225"
    using adv own_term_bounds(3) by blast
  then show "(\<Sum>p\<leftarrow>get_all_pieces s k. ?g p) \<le> int (length (get_all_pieces s k)) * 225"
    by (rule sum_le_count)
  have ne: "get_all_pieces s k \<noteq> []"
    using not_terminal_facts(2,3) [OF assms(1)] assms(2) by auto
  have "0 \<le> (\<Sum>p\<leftarrow>get_all_pieces s k. own_term Evaluator_init s k p)"
    using adv own_term_bounds(1) by (intro sum_nonneg) blast
  moreover have "1 \<le> int (length (get_all_pieces s k))"
    using ne by (cases "get_all_pieces s k") simp_all
  ultimately show "100 \<le> (\<Sum>p\<leftarrow>get_all_pieces s k. ?g p)"
    unfolding sum_plus_100 by linarith
qed

lemma other_side_bounds:
  assumes "is_terminal s = (False, w)" "k = WHITE \<or> k = BLACK"
  shows "(\<Sum>p\<leftarrow>get_all_pieces s k. 100 + their_term Evaluator_init s k p) \<le> 9940"
    and "(\<Sum>p\<leftarrow>get_all_pieces s k. 100 + their_term Evaluator_init s k p)
           \<le> int (length (get_all_pieces s k)) * 225"
    and "100 \<le> (\<Sum>p\<leftarrow>get_all_pieces s k. 100 + their_term Evaluator_init s k p)"
proof -
  let ?g = "\<lambda>p. 100 + their_term Evaluator_init s k p"
  let ?P = "\<lambda>p. cell s (fst p) (snd p) = k"
  have adv: "0 \<le> advancement_of k p \<and> advancement_of k p \<le> 6"
    if "p \<in> set (get_all_pieces s k)" for p
    using advancement_range [OF assms that] .
  have "\<forall>p\<in>set all_cells. (?P p \<longrightarrow> ?g p \<le> cell_cap k p) \<and> 0 \<le> cell_cap k p"
    using adv their_term_bounds(2) cell_cap_nonneg by (auto simp: get_all_pieces_filter)
  then have "(\<Sum>p\<leftarrow>filter ?P all_cells. ?g p) \<le> (\<Sum>p\<leftarrow>all_cells. cell_cap k p)"
    by (rule sum_filter_le)
  then show "(\<Sum>p\<leftarrow>get_all_pieces s k. ?g p) \<le> 9940"
    using cell_cap_total [OF assms(2)] by (simp only: get_all_pieces_filter)
  have "\<forall>p\<in>set (get_all_pieces s k). ?g p \<le> 225"
    using adv their_term_bounds(3) by blast
  then show "(\<Sum>p\<leftarrow>get_all_pieces s k. ?g p) \<le> int (length (get_all_pieces s k)) * 225"
    by (rule sum_le_count)
  have ne: "get_all_pieces s k \<noteq> []"
    using not_terminal_facts(2,3) [OF assms(1)] assms(2) by auto
  have "0 \<le> (\<Sum>p\<leftarrow>get_all_pieces s k. their_term Evaluator_init s k p)"
    using adv their_term_bounds(1) by (intro sum_nonneg) blast
  moreover have "1 \<le> int (length (get_all_pieces s k))"
    using ne by (cases "get_all_pieces s k") simp_all
  ultimately show "100 \<le> (\<Sum>p\<leftarrow>get_all_pieces s k. ?g p)"
    unfolding sum_plus_100 by linarith
qed

lemma evaluate_difference:
  assumes "is_terminal s = (False, w)"
  shows "evaluate Evaluator_init s c =
     (\<Sum>p\<leftarrow>get_all_pieces s c. 100 + own_term Evaluator_init s c p)
     - (\<Sum>p\<leftarrow>get_all_pieces s (if c = WHITE then BLACK else WHITE).
          100 + their_term Evaluator_init s (if c = WHITE then BLACK else WHITE) p)"
proof -
  have "fst (is_terminal s) = False" using assms by simp
  then show ?thesis
    unfolding sum_plus_100
    by (simp add: evaluate_terms Evaluator_init_def algebra_simps)
qed

text \<open>
  C10, as stated: the evaluation of every position that is not terminal is at most
  1920 in absolute value. It fails on a position with sixteen white pawns, which
  \<open>setup_from_string\<close> builds: its evaluation for white is 2440.
\<close>

theorem evaluate_bound_counterexample:
  "wf_state many_pawns \<and> fst (is_terminal many_pawns) = False
   \<and> evaluate Evaluator_init many_pawns WHITE = 2440
   \<and> \<not> \<bar>evaluate Evaluator_init many_pawns WHITE\<bar> \<le> 1920"
  by code_simp

text \<open>
  C10, amended: on an eight by eight board, for a position that is not terminal and
  either perspective, the absolute value of the evaluation is below
  \<open>WIN_VALUE - 100\<close>; and it is at most 1920 when neither side has more than eight
  pawns.
\<close>

theorem evaluate_bounded:
  assumes "wf_state s" "fst (is_terminal s) = False" "c = WHITE \<or> c = BLACK"
  shows "\<bar>evaluate Evaluator_init s c\<bar> < WIN_VALUE - 100
       \<and> (length (get_all_pieces s WHITE) \<le> 8 \<and> length (get_all_pieces s BLACK) \<le> 8
            \<longrightarrow> \<bar>evaluate Evaluator_init s c\<bar> \<le> 1920)"
proof -
  obtain w where t: "is_terminal s = (False, w)"
    using assms(2) by (cases "is_terminal s") simp
  let ?o = "if c = WHITE then BLACK else WHITE"
  have o: "?o = WHITE \<or> ?o = BLACK" by simp
  let ?A = "\<Sum>p\<leftarrow>get_all_pieces s c. 100 + own_term Evaluator_init s c p"
  let ?B = "\<Sum>p\<leftarrow>get_all_pieces s ?o. 100 + their_term Evaluator_init s ?o p"
  have e: "evaluate Evaluator_init s c = ?A - ?B"
    by (rule evaluate_difference [OF t])
  have A: "?A \<le> 9940" "?A \<le> int (length (get_all_pieces s c)) * 225" "100 \<le> ?A"
    using own_side_bounds [OF t assms(3)] by blast+
  have B: "?B \<le> 9940" "?B \<le> int (length (get_all_pieces s ?o)) * 225" "100 \<le> ?B"
    using other_side_bounds [OF t o] by blast+
  have "\<bar>?A - ?B\<bar> < WIN_VALUE - 100"
    using A(1,3) B(1,3) by (simp add: WIN_VALUE_def)
  moreover have "\<bar>?A - ?B\<bar> \<le> 1920"
    if "length (get_all_pieces s WHITE) \<le> 8 \<and> length (get_all_pieces s BLACK) \<le> 8"
  proof -
    have "int (length (get_all_pieces s c)) \<le> 8" "int (length (get_all_pieces s ?o)) \<le> 8"
      using that assms(3) by auto
    then have "?A \<le> 1800" "?B \<le> 1800" using A(2) B(2) by linarith+
    then show ?thesis using A(3) B(3) by linarith
  qed
  ultimately show ?thesis unfolding e by blast
qed

theorem evaluate_bounded_witness:
  "wf_state two_passed \<and> fst (is_terminal two_passed) = False
   \<and> \<bar>evaluate Evaluator_init two_passed WHITE\<bar> < WIN_VALUE - 100
   \<and> length (get_all_pieces two_passed WHITE) \<le> 8
   \<and> length (get_all_pieces two_passed BLACK) \<le> 8
   \<and> \<bar>evaluate Evaluator_init two_passed WHITE\<bar> \<le> 1920"
proof -
  have wf: "wf_state two_passed" by code_simp
  have nt: "fst (is_terminal two_passed) = False" by code_simp
  have n: "length (get_all_pieces two_passed WHITE) \<le> 8"
    "length (get_all_pieces two_passed BLACK) \<le> 8" by code_simp+
  show ?thesis
    using evaluate_bounded [OF wf nt, of WHITE] wf nt n by simp
qed

subsection \<open>Applying a move, in the store\<close>

lemma keeps_refl: "keeps h h"
  by (simp add: keeps_def)

lemma keeps_trans: "keeps h h1 \<Longrightarrow> keeps h1 h2 \<Longrightarrow> keeps h h2"
  by (auto simp: keeps_def)

lemma keeps_store_ok: "store_ok h \<Longrightarrow> keeps h h' \<Longrightarrow> store_ok h'"
  by (auto simp: keeps_def store_ok_def)

lemma keeps_alloc: "alloc h ob = (a, h') \<Longrightarrow> keeps h h'"
  by (auto simp: alloc_def keeps_def)

lemma alloc_result:
  "alloc h ob = (a, h') \<Longrightarrow>
     a = next_addr h \<and> next_addr h' = Suc (next_addr h) \<and> objs h' = (objs h)(a \<mapsto> ob)"
  by (auto simp: alloc_def)

lemma alloc_rows_result:
  "alloc_rows h rs = (as, h') \<Longrightarrow>
     as = [next_addr h..<next_addr h + length rs]
     \<and> next_addr h' = next_addr h + length rs
     \<and> (\<forall>a. objs h' a =
           (if next_addr h \<le> a \<and> a < next_addr h + length rs
            then Some (RowList (rs ! (a - next_addr h))) else objs h a))"
proof (induction rs arbitrary: h as h')
  case Nil
  then show ?case by auto
next
  case (Cons r rs)
  obtain a h1 where a: "alloc h (RowList r) = (a, h1)" by (cases "alloc h (RowList r)")
  obtain as1 h2 where r: "alloc_rows h1 rs = (as1, h2)" by (cases "alloc_rows h1 rs")
  have res: "as = a # as1" "h' = h2" using Cons.prems a r by simp_all
  note A = alloc_result [OF a]
  note IH = Cons.IH [OF r]
  have 1: "as = [next_addr h..<next_addr h + length (r # rs)]"
    using res A IH by (simp add: upt_rec)
  have 2: "next_addr h' = next_addr h + length (r # rs)"
    using res A IH by simp
  have 3: "objs h' x =
           (if next_addr h \<le> x \<and> x < next_addr h + length (r # rs)
            then Some (RowList ((r # rs) ! (x - next_addr h))) else objs h x)" for x
  proof (cases "x = next_addr h")
    case True
    then show ?thesis using res A IH by simp
  next
    case False
    then show ?thesis using res A IH by (auto simp: nth_Cons' Suc_diff_Suc)
  qed
  show ?case using 1 2 3 by blast
qed

lemma keeps_alloc_rows: "alloc_rows h rs = (as, h') \<Longrightarrow> keeps h h'"
  using alloc_rows_result [of h rs as h'] by (auto simp: keeps_def)

lemma GameState_new_result:
  assumes "GameState_new h = (new, h')"
  shows "keeps h h'" "next_addr h \<le> new" "new < next_addr h'"
proof -
  obtain rows h1 where 1: "alloc_rows h empty_board = (rows, h1)"
    by (cases "alloc_rows h empty_board")
  obtain b h2 where 2: "alloc h1 (BoardList rows) = (b, h2)"
    by (cases "alloc h1 (BoardList rows)")
  obtain l h3 where 3: "alloc h2 (MoveList []) = (l, h3)"
    by (cases "alloc h2 (MoveList [])")
  have 4: "alloc h3 (StateObj b WHITE None l) = (new, h')"
    using assms 1 2 3 by (simp add: GameState_new_def)
  have k: "keeps h h1" "keeps h1 h2" "keeps h2 h3" "keeps h3 h'"
    using keeps_alloc_rows [OF 1] keeps_alloc [OF 2] keeps_alloc [OF 3] keeps_alloc [OF 4]
    by simp_all
  then show "keeps h h'" using keeps_trans by blast
  have "next_addr h \<le> next_addr h3" using k by (simp add: keeps_def)
  then show "next_addr h \<le> new" "new < next_addr h'"
    using alloc_result [OF 4] by simp_all
qed

lemma read_rows_same:
  "\<forall>a\<in>set rows. objs h' a = objs h a \<Longrightarrow> read_rows h' rows = read_rows h rows"
  by (induction rows) (auto split: option.splits obj.splits sum.splits)

lemma read_rows_allocated:
  "read_rows h rows = Inr bs \<Longrightarrow> a \<in> set rows \<Longrightarrow> objs h a \<noteq> None"
  by (induction rows arbitrary: bs) (auto split: option.splits obj.splits sum.splits)

lemma read_rows_nth:
  "length rows = length bs \<Longrightarrow> \<forall>i<length rows. objs h (rows ! i) = Some (RowList (bs ! i)) \<Longrightarrow>
   read_rows h rows = Inr bs"
proof (induction rows arbitrary: bs)
  case Nil
  then show ?case by simp
next
  case (Cons a rows)
  then obtain b bs1 where bs: "bs = b # bs1" by (cases bs) auto
  have "objs h a = Some (RowList b)" using Cons.prems(2) bs by auto
  moreover have "\<forall>i<length rows. objs h (rows ! i) = Some (RowList (bs1 ! i))"
  proof (intro allI impI)
    fix i assume "i < length rows"
    then have "Suc i < length (a # rows)" by simp
    then have "objs h ((a # rows) ! Suc i) = Some (RowList (bs ! Suc i))"
      using Cons.prems(2) by blast
    then show "objs h (rows ! i) = Some (RowList (bs1 ! i))" using bs by simp
  qed
  then have "read_rows h rows = Inr bs1"
    using Cons.IH [of bs1] Cons.prems(1) bs by simp
  ultimately show ?case using bs by simp
qed

lemma fresh_state_at:
  assumes "fresh_state lo h new s"
  shows "state_at h new = Some s"
proof -
  obtain b l rows where f:
    "objs h new = Some (StateObj b (current_player s) (en_passant_target s) l)"
    "objs h b = Some (BoardList rows)" "length rows = length (board s)"
    "\<forall>i<length rows. objs h (rows ! i) = Some (RowList (board s ! i))"
    "objs h l = Some (MoveList (move_history s))"
    using assms by (auto simp: fresh_state_def)
  have "read_rows h rows = Inr (board s)" using read_rows_nth [OF f(3,4)] .
  then show ?thesis using f by (simp add: state_at_def)
qed

lemma state_at_parts:
  assumes "state_at h a = Some s"
  obtains b l rows where
    "objs h a = Some (StateObj b (current_player s) (en_passant_target s) l)"
    "objs h b = Some (BoardList rows)" "read_rows h rows = Inr (board s)"
    "objs h l = Some (MoveList (move_history s))"
  using assms
  by (auto simp: state_at_def split: option.splits obj.splits sum.splits)

lemma store_ok_below: "store_ok h \<Longrightarrow> objs h a \<noteq> None \<Longrightarrow> a < next_addr h"
  by (auto simp: store_ok_def not_le [symmetric])

lemma GameState_copy_fresh:
  assumes "store_ok h" "state_at h self = Some s"
  shows "\<exists>new h'. GameState_copy h self = Inr (new, h') \<and> keeps h h'
           \<and> fresh_state (next_addr h) h' new s"
proof -
  let ?p = "current_player s" and ?ep = "en_passant_target s" and ?ms = "move_history s"
  obtain b l rows where parts:
    "objs h self = Some (StateObj b ?p ?ep l)"
    "objs h b = Some (BoardList rows)" "read_rows h rows = Inr (board s)"
    "objs h l = Some (MoveList ?ms)"
    using state_at_parts [OF assms(2)] by blast
  have below: "b < next_addr h" "l < next_addr h" "\<forall>a\<in>set rows. a < next_addr h"
    using parts store_ok_below [OF assms(1)] read_rows_allocated [OF parts(3)] by auto
  obtain new h1 where g: "GameState_new h = (new, h1)" by (cases "GameState_new h")
  note G = GameState_new_result [OF g]
  have b1: "objs h1 b = Some (BoardList rows)"
    using G(1) below(1) parts(2) by (simp add: keeps_def)
  have "\<forall>a\<in>set rows. objs h1 a = objs h a"
    using G(1) below(3) by (simp add: keeps_def)
  then have r1: "read_rows h1 rows = Inr (board s)"
    using read_rows_same [of rows h1 h] parts(3) by simp
  obtain rows1 h2 where ar: "alloc_rows h1 (board s) = (rows1, h2)"
    by (cases "alloc_rows h1 (board s)")
  note AR = alloc_rows_result [OF ar]
  obtain bb h3 where ab: "alloc h2 (BoardList rows1) = (bb, h3)"
    by (cases "alloc h2 (BoardList rows1)")
  note AB = alloc_result [OF ab]
  have k3: "keeps h h3"
    using G(1) keeps_alloc_rows [OF ar] keeps_alloc [OF ab] keeps_trans by blast
  have l3: "objs h3 l = Some (MoveList ?ms)"
    using k3 below(2) parts(4) by (simp add: keeps_def)
  obtain ll h4 where al: "alloc h3 (MoveList ?ms) = (ll, h4)"
    by (cases "alloc h3 (MoveList ?ms)")
  note AL = alloc_result [OF al]
  let ?h' = "h4\<lparr>objs := (objs h4)(new \<mapsto> StateObj bb ?p ?ep ll)\<rparr>"
  have res: "GameState_copy h self = Inr (new, ?h')"
    using parts(1) g b1 r1 ar ab l3 al by (simp add: GameState_copy_def)
  have k4: "keeps h h4" using k3 keeps_alloc [OF al] keeps_trans by blast
  have n1: "next_addr h \<le> next_addr h1" using G(1) by (simp add: keeps_def)
  have addr: "bb = next_addr h1 + length (board s)" "ll = Suc bb" "next_addr h4 = Suc ll"
    using AR AB AL by simp_all
  have keeps: "keeps h ?h'"
    using k4 G(2,3) addr n1 by (auto simp: keeps_def)
  have rows_i: "objs ?h' (rows1 ! i) = Some (RowList (board s ! i))" if "i < length rows1" for i
  proof -
    have i: "i < length (board s)" "rows1 ! i = next_addr h1 + i" using that AR by simp_all
    then have "objs h2 (rows1 ! i) = Some (RowList (board s ! i))" using AR by simp
    then show ?thesis using i AB AL addr G(3) by simp
  qed
  have f1: "objs ?h' new = Some (StateObj bb ?p ?ep ll)" by simp
  have f2: "objs ?h' bb = Some (BoardList rows1)" using AB AL addr G(3) by simp
  have f3: "length rows1 = length (board s)" using AR by simp
  have f4: "\<forall>i<length rows1. objs ?h' (rows1 ! i) = Some (RowList (board s ! i))"
    using rows_i by blast
  have f5: "objs ?h' ll = Some (MoveList ?ms)" using AL addr G(3) by simp
  have f6: "distinct (new # bb # ll # rows1)" using AR addr G(3) by auto
  have f7: "\<forall>a\<in>set (new # bb # ll # rows1). next_addr h \<le> a"
    using AR addr G(2) n1 by auto
  have "fresh_state (next_addr h) ?h' new s"
    unfolding fresh_state_def using f1 f2 f3 f4 f5 f6 f7 by blast
  then show ?thesis using res keeps by blast
qed

lemma store_board_get_fresh:
  assumes "fresh_state lo h new s" "wf_state s" "0 \<le> row" "row < 8" "0 \<le> col" "col < 8"
  shows "store_board_get h new row col = Inr (cell s col row)"
proof -
  obtain b l rows where f:
    "objs h new = Some (StateObj b (current_player s) (en_passant_target s) l)"
    "objs h b = Some (BoardList rows)" "length rows = length (board s)"
    "\<forall>i<length rows. objs h (rows ! i) = Some (RowList (board s ! i))"
    using assms(1) by (auto simp: fresh_state_def)
  have wf: "wf_board (board s)" using assms(2) by (simp add: wf_state_def)
  then have len: "length (board s) = 8" "length (board s ! nat row) = 8"
    using assms(3,4) by (simp_all add: wf_board_def wf_board_nth)
  have "objs h (rows ! nat row) = Some (RowList (board s ! nat row))"
    using f(3,4) len(1) assms(3,4) by simp
  then show ?thesis
    using f(1,2,3) len assms(3-6)
    by (simp add: store_board_get_def py_index_def cell_def)
qed

lemma store_board_set_fresh:
  assumes "fresh_state lo h new s" "wf_state s" "0 \<le> row" "row < 8" "0 \<le> col" "col < 8"
  shows "\<exists>h'. store_board_set h new row col v = Inr h'
           \<and> fresh_state lo h' new (s\<lparr>board := set_cell (board s) col row v\<rparr>)
           \<and> next_addr h' = next_addr h
           \<and> (\<forall>a. a < lo \<longrightarrow> objs h' a = objs h a)
           \<and> (\<forall>a. objs h a = None \<longrightarrow> objs h' a = None)"
proof -
  obtain b l rows where f:
    "objs h new = Some (StateObj b (current_player s) (en_passant_target s) l)"
    "objs h b = Some (BoardList rows)" "length rows = length (board s)"
    "\<forall>i<length rows. objs h (rows ! i) = Some (RowList (board s ! i))"
    "objs h l = Some (MoveList (move_history s))"
    "distinct (new # b # l # rows)"
    "\<forall>a\<in>set (new # b # l # rows). lo \<le> a"
    using assms(1) by (auto simp: fresh_state_def)
  have wf: "wf_board (board s)" using assms(2) by (simp add: wf_state_def)
  then have len: "length (board s) = 8" "length (board s ! nat row) = 8"
    using assms(3,4) by (simp_all add: wf_board_def wf_board_nth)
  let ?r = "nat row" and ?c = "nat col"
  have r: "?r < length rows" using f(3) len(1) assms(3,4) by simp
  have at_r: "objs h (rows ! ?r) = Some (RowList (board s ! ?r))" using f(4) r by simp
  let ?h' = "h\<lparr>objs := (objs h)(rows ! ?r \<mapsto> RowList ((board s ! ?r)[?c := v]))\<rparr>"
  have res: "store_board_set h new row col v = Inr ?h'"
    using f(1,2,3) at_r len assms(3-6)
    by (simp add: store_board_set_def py_index_def)
  have mem: "rows ! ?r \<in> set rows" using r by simp
  then have ne: "rows ! ?r \<noteq> new" "rows ! ?r \<noteq> b" "rows ! ?r \<noteq> l"
    using f(6) by auto
  let ?s' = "s\<lparr>board := set_cell (board s) col row v\<rparr>"
  have g1: "objs ?h' new = Some (StateObj b (current_player ?s') (en_passant_target ?s') l)"
    using f(1) ne by simp
  have g2: "objs ?h' b = Some (BoardList rows)" using f(2) ne by simp
  have g3: "length rows = length (board ?s')" using f(3) by (simp add: set_cell_def)
  have g4: "\<forall>i<length rows. objs ?h' (rows ! i) = Some (RowList (board ?s' ! i))"
  proof (intro allI impI)
    fix i assume i: "i < length rows"
    show "objs ?h' (rows ! i) = Some (RowList (board ?s' ! i))"
    proof (cases "i = ?r")
      case True
      then show ?thesis using r f(3) by (simp add: set_cell_def)
    next
      case False
      then have "rows ! i \<noteq> rows ! ?r"
        using f(6) i r by (auto simp: nth_eq_iff_index_eq)
      then show ?thesis using f(4) i False by (simp add: set_cell_def)
    qed
  qed
  have g5: "objs ?h' l = Some (MoveList (move_history ?s'))" using f(5) ne by simp
  have "fresh_state lo ?h' new ?s'"
    unfolding fresh_state_def using g1 g2 g3 g4 g5 f(6,7) by blast
  moreover have "\<forall>a. a < lo \<longrightarrow> objs ?h' a = objs h a"
    using f(7) mem by auto
  moreover have "\<forall>a. objs h a = None \<longrightarrow> objs ?h' a = None"
    using at_r by auto
  ultimately show ?thesis using res by auto
qed

lemma make_move_cells:
  assumes "wf_state s" "move_in_bounds (fc, fr, tc, tr)"
    and "make_move s (fc, fr, tc, tr) = Inr s'"
    and "0 \<le> col" "col < 8" "0 \<le> row" "row < 8"
  shows "cell s' col row =
     (if (col, row) = (tc, tr) then cell s fc fr
      else if (col, row) = (fc, fr) then EMPTY
      else if en_passant_target s = Some (tc, tr) \<and> (col, row) = (tc, fr) then EMPTY
      else cell s col row)"
proof -
  have wf: "wf_board (board s)" using assms(1) by (simp add: wf_state_def)
  have r: "0 \<le> fc" "fc < 8" "0 \<le> fr" "fr < 8" "0 \<le> tc" "tc < 8" "0 \<le> tr" "tr < 8"
    using assms(2) by (simp_all add: move_in_bounds_def)
  let ?b1 = "if en_passant_target s = Some (tc, tr)
             then set_cell (board s) tc fr EMPTY else board s"
  let ?b2 = "set_cell ?b1 fc fr EMPTY"
  have wf1: "wf_board ?b1" using wf by (simp add: wf_board_set_cell)
  have wf2: "wf_board ?b2" using wf1 by (rule wf_board_set_cell)
  have b: "board s' = set_cell ?b2 tc tr (cell s fc fr)"
    using make_move_in_bounds [OF assms(1,2)] assms(3) by auto
  have c1: "?b1 ! nat row ! nat col =
      (if en_passant_target s = Some (tc, tr) \<and> col = tc \<and> row = fr then EMPTY
       else board s ! nat row ! nat col)"
  proof (cases "en_passant_target s = Some (tc, tr)")
    case True
    then show ?thesis
      using set_cell_nth [OF wf r(5,6,3,4) assms(4,6,7), of EMPTY] assms(5) by auto
  next
    case False
    then show ?thesis by simp
  qed
  have c2: "?b2 ! nat row ! nat col =
      (if col = fc \<and> row = fr then EMPTY else ?b1 ! nat row ! nat col)"
    using set_cell_nth [OF wf1 r(1,2,3,4) assms(4,6,7), of EMPTY] assms(5) by simp
  have c3: "board s' ! nat row ! nat col =
      (if col = tc \<and> row = tr then cell s fc fr else ?b2 ! nat row ! nat col)"
    unfolding b
    using set_cell_nth [OF wf2 r(5,6,7,8) assms(4,6,7), of "cell s fc fr"] assms(5) by simp
  show ?thesis
    unfolding cell_def [of s' col row] c3 c2 c1 by (auto simp: cell_def)
qed

lemma state_at_kept:
  assumes "store_ok h" "state_at h a = Some s"
    and "\<forall>x. x < next_addr h \<longrightarrow> objs h' x = objs h x"
  shows "state_at h' a = Some s"
proof -
  obtain b l rows where parts:
    "objs h a = Some (StateObj b (current_player s) (en_passant_target s) l)"
    "objs h b = Some (BoardList rows)" "read_rows h rows = Inr (board s)"
    "objs h l = Some (MoveList (move_history s))"
    using state_at_parts [OF assms(2)] by blast
  have below: "a < next_addr h" "b < next_addr h" "l < next_addr h"
    "\<forall>x\<in>set rows. x < next_addr h"
    using parts store_ok_below [OF assms(1)] read_rows_allocated [OF parts(3)] by auto
  have "read_rows h' rows = read_rows h rows"
    using below(4) assms(3) by (intro read_rows_same) simp
  then show ?thesis
    using parts below assms(3) by (simp add: state_at_def)
qed

lemma fresh_state_finish:
  assumes "fresh_state lo h new s" "objs h new = Some (StateObj b p ep l)"
  shows "objs h l = Some (MoveList (move_history s))"
    and "fresh_state lo (h\<lparr>objs := (objs h)(new \<mapsto> StateObj b p' ep' l, l \<mapsto> MoveList ms')\<rparr>) new
           (s\<lparr>current_player := p', en_passant_target := ep', move_history := ms'\<rparr>)"
    and "\<forall>a. a < lo \<longrightarrow>
           objs (h\<lparr>objs := (objs h)(new \<mapsto> StateObj b p' ep' l, l \<mapsto> MoveList ms')\<rparr>) a
             = objs h a"
proof -
  obtain b0 l0 rows where f:
    "objs h new = Some (StateObj b0 (current_player s) (en_passant_target s) l0)"
    "objs h b0 = Some (BoardList rows)" "length rows = length (board s)"
    "\<forall>i<length rows. objs h (rows ! i) = Some (RowList (board s ! i))"
    "objs h l0 = Some (MoveList (move_history s))"
    "distinct (new # b0 # l0 # rows)"
    "\<forall>a\<in>set (new # b0 # l0 # rows). lo \<le> a"
    using assms(1) by (auto simp: fresh_state_def)
  have eq: "b0 = b" "l0 = l" using f(1) assms(2) by simp_all
  show "objs h l = Some (MoveList (move_history s))" using f(5) eq by simp
  let ?h' = "h\<lparr>objs := (objs h)(new \<mapsto> StateObj b p' ep' l, l \<mapsto> MoveList ms')\<rparr>"
  let ?s' = "s\<lparr>current_player := p', en_passant_target := ep', move_history := ms'\<rparr>"
  have g1: "objs ?h' new = Some (StateObj b (current_player ?s') (en_passant_target ?s') l)"
    using f(6) eq by auto
  have g2: "objs ?h' b = Some (BoardList rows)" using f(2,6) eq by auto
  have g3: "length rows = length (board ?s')" using f(3) by simp
  have g4: "\<forall>i<length rows. objs ?h' (rows ! i) = Some (RowList (board ?s' ! i))"
  proof (intro allI impI)
    fix i assume i: "i < length rows"
    then have "rows ! i \<in> set rows" by simp
    then have "rows ! i \<noteq> new" "rows ! i \<noteq> l" using f(6) eq by auto
    then show "objs ?h' (rows ! i) = Some (RowList (board ?s' ! i))" using f(4) i by simp
  qed
  have g5: "objs ?h' l = Some (MoveList (move_history ?s'))" by simp
  have g6: "distinct (new # b # l # rows)" "\<forall>a\<in>set (new # b # l # rows). lo \<le> a"
    using f(6,7) eq by simp_all
  show "fresh_state lo ?h' new ?s'"
    unfolding fresh_state_def using g1 g2 g3 g4 g5 g6 by blast
  show "\<forall>a. a < lo \<longrightarrow> objs ?h' a = objs h a"
    using f(7) eq by auto
qed

lemma pawn_moves_double_step:
  assumes "(fc, fr, tc, tr) \<in> set (pawn_moves s (col, row))"
  shows "(\<bar>tr - fr\<bar> = 2) = double_step s (fc, fr, tc, tr)"
  using assms
  by (auto simp: pawn_moves_def capture_moves_def Let_def double_step_def split: if_splits)

lemma generated_double_step:
  assumes "(fc, fr, tc, tr) \<in> set (generate_moves s)"
  shows "(\<bar>tr - fr\<bar> = 2) = double_step s (fc, fr, tc, tr)"
proof -
  obtain p where p: "(fc, fr, tc, tr) \<in> set (pawn_moves s p)"
    using assms by (auto simp: generate_moves_def)
  obtain col row where "p = (col, row)" by (cases p)
  then show ?thesis using pawn_moves_double_step p by blast
qed

lemma double_step_between:
  assumes "double_step s (fc, fr, tc, tr)"
  shows "(tc, (fr + tr) div 2) = (fc, fr + (if current_player s = WHITE then 1 else - 1))"
    and "\<bar>tr - fr\<bar> = 2"
  using assms by (auto simp: double_step_def)

text \<open>
  C2, as stated: for every move within the board the en-passant target is set exactly
  when the move is a double step, to the intermediate cell, and cleared otherwise.
  It fails on the initial position for the move from a2 to d4, which is within the
  board and is no double step: \<open>make_move\<close> applies it and sets the target to d3.
\<close>

theorem make_move_counterexample:
  "wf_state initial_position \<and> move_in_bounds (0, 1, 3, 3)
   \<and> \<not> double_step initial_position (0, 1, 3, 3)
   \<and> make_move initial_position (0, 1, 3, 3) = Inr after_a2d4
   \<and> en_passant_target after_a2d4 = Some (3, 2)"
  by code_simp

text \<open>
  C2, amended: for a state object in the store that holds an eight by eight
  position, and a move within the board, \<open>make_move\<close> returns a new state object;
  nothing that was in the store before is changed, so the receiver still holds its
  board, side to move, en-passant target and history; the new object holds the
  position the value-level \<open>make_move\<close> computes: the destination holds what stood
  on the source, the source is empty, the cell level with the mover on the
  destination file is empty when the destination is the recorded en-passant target,
  every other cell is as before; the en-passant target is
  \<open>(to_col, (from_row + to_row) div 2)\<close> exactly when the rows of source and
  destination are two apart, and \<open>None\<close> otherwise; the side to move is flipped;
  the move is appended to the history. For a generated move the target is set
  exactly when the move is a double step, and is then the cell between source and
  destination.
\<close>

theorem make_move_contract:
  assumes "store_ok h" "state_at h self = Some s" "wf_state s"
    and "move_in_bounds (fc, fr, tc, tr)"
  shows "\<exists>new h' s'. make_move_in_store h self (fc, fr, tc, tr) = Inr (new, h')
     \<and> (\<forall>a. a < next_addr h \<longrightarrow> objs h' a = objs h a)
     \<and> state_at h' self = Some s
     \<and> next_addr h \<le> new
     \<and> state_at h' new = Some s'
     \<and> make_move s (fc, fr, tc, tr) = Inr s'
     \<and> wf_state s'
     \<and> (\<forall>col row. 0 \<le> col \<and> col < 8 \<and> 0 \<le> row \<and> row < 8 \<longrightarrow>
          cell s' col row =
            (if (col, row) = (tc, tr) then cell s fc fr
             else if (col, row) = (fc, fr) then EMPTY
             else if en_passant_target s = Some (tc, tr) \<and> (col, row) = (tc, fr) then EMPTY
             else cell s col row))
     \<and> en_passant_target s' =
          (if \<bar>tr - fr\<bar> = 2 then Some (tc, (fr + tr) div 2) else None)
     \<and> current_player s' = (if current_player s = WHITE then BLACK else WHITE)
     \<and> move_history s' = move_history s @ [(fc, fr, tc, tr)]
     \<and> ((fc, fr, tc, tr) \<in> set (generate_moves s) \<longrightarrow>
          (en_passant_target s' \<noteq> None) = double_step s (fc, fr, tc, tr)
          \<and> (double_step s (fc, fr, tc, tr) \<longrightarrow>
               en_passant_target s'
                 = Some (fc, fr + (if current_player s = WHITE then 1 else - 1))))"
proof -
  let ?lo = "next_addr h"
  let ?m = "(fc, fr, tc, tr)"
  have r: "0 \<le> fc" "fc < 8" "0 \<le> fr" "fr < 8" "0 \<le> tc" "tc < 8" "0 \<le> tr" "tr < 8"
    using assms(4) by (simp_all add: move_in_bounds_def)
  obtain new h1 where copy: "GameState_copy h self = Inr (new, h1)" and k1: "keeps h h1"
    and F1: "fresh_state ?lo h1 new s"
    using GameState_copy_fresh [OF assms(1,2)] by blast
  have piece: "store_board_get h1 new fr fc = Inr (cell s fc fr)"
    using store_board_get_fresh [OF F1 assms(3) r(3,4,1,2)] .
  obtain b1 l1 where o1:
    "objs h1 new = Some (StateObj b1 (current_player s) (en_passant_target s) l1)"
    using F1 by (auto simp: fresh_state_def)
  let ?s2 = "s\<lparr>board := (if en_passant_target s = Some (tc, tr)
                            then set_cell (board s) tc fr EMPTY else board s)\<rparr>"
  obtain h2 where st2:
    "(if en_passant_target s = Some (tc, tr)
      then store_board_set h1 new fr tc EMPTY else Inr h1) = Inr h2"
    and F2: "fresh_state ?lo h2 new ?s2"
    and k2: "\<forall>a. a < ?lo \<longrightarrow> objs h2 a = objs h1 a"
  proof (cases "en_passant_target s = Some (tc, tr)")
    case True
    then show ?thesis
      using store_board_set_fresh [OF F1 assms(3) r(3,4,5,6), of EMPTY] that by auto
  next
    case False
    then show ?thesis using F1 that by simp
  qed
  have wf2: "wf_state ?s2"
    using assms(3) by (simp add: wf_state_def wf_board_set_cell)
  let ?s3 = "?s2\<lparr>board := set_cell (board ?s2) fc fr EMPTY\<rparr>"
  obtain h3 where st3: "store_board_set h2 new fr fc EMPTY = Inr h3"
    and F3: "fresh_state ?lo h3 new ?s3"
    and k3: "\<forall>a. a < ?lo \<longrightarrow> objs h3 a = objs h2 a"
    using store_board_set_fresh [OF F2 wf2 r(3,4,1,2), of EMPTY] by blast
  have wf3: "wf_state ?s3"
    using wf2 by (simp add: wf_state_def wf_board_set_cell)
  let ?s4 = "?s3\<lparr>board := set_cell (board ?s3) tc tr (cell s fc fr)\<rparr>"
  obtain h4 where st4: "store_board_set h3 new tr tc (cell s fc fr) = Inr h4"
    and F4: "fresh_state ?lo h4 new ?s4"
    and k4: "\<forall>a. a < ?lo \<longrightarrow> objs h4 a = objs h3 a"
    using store_board_set_fresh [OF F3 wf3 r(7,8,5,6), of "cell s fc fr"] by blast
  obtain b4 l4 where o4:
    "objs h4 new = Some (StateObj b4 (current_player s) (en_passant_target s) l4)"
    using F4 by (auto simp: fresh_state_def)
  let ?p' = "if current_player s = WHITE then BLACK else WHITE"
  let ?ep' = "if \<bar>tr - fr\<bar> = 2 then Some (tc, (fr + tr) div 2) else None"
  let ?ms' = "move_history s @ [?m]"
  let ?h5 = "h4\<lparr>objs := (objs h4)(new \<mapsto> StateObj b4 ?p' ?ep' l4, l4 \<mapsto> MoveList ?ms')\<rparr>"
  let ?s5 = "?s4\<lparr>current_player := ?p', en_passant_target := ?ep', move_history := ?ms'\<rparr>"
  have l4: "objs h4 l4 = Some (MoveList (move_history s))"
    using fresh_state_finish(1) [OF F4 o4] by simp
  have F5: "fresh_state ?lo ?h5 new ?s5"
    using fresh_state_finish(2) [OF F4 o4, of ?p' ?ep' ?ms'] .
  have k5: "\<forall>a. a < ?lo \<longrightarrow> objs ?h5 a = objs h4 a"
    using fresh_state_finish(3) [OF F4 o4, of ?p' ?ep' ?ms'] .
  have res: "make_move_in_store h self ?m = Inr (new, ?h5)"
    using copy piece o1 st2 st3 st4 o4 l4 by (simp add: make_move_in_store_def)
  have pure: "make_move s ?m = Inr ?s5"
    using make_move_in_bounds [OF assms(3,4)] by simp
  have frame: "\<forall>a. a < ?lo \<longrightarrow> objs ?h5 a = objs h a"
    using k1 k2 k3 k4 k5 by (simp add: keeps_def)
  have self: "state_at ?h5 self = Some s"
    using state_at_kept [OF assms(1,2) frame] .
  have new: "?lo \<le> new" using F1 by (auto simp: fresh_state_def)
  have at_new: "state_at ?h5 new = Some ?s5" using fresh_state_at [OF F5] .
  have wf5: "wf_state ?s5"
    using wf3 by (simp add: wf_state_def wf_board_set_cell)
  have cells: "\<forall>col row. 0 \<le> col \<and> col < 8 \<and> 0 \<le> row \<and> row < 8 \<longrightarrow>
          cell ?s5 col row =
            (if (col, row) = (tc, tr) then cell s fc fr
             else if (col, row) = (fc, fr) then EMPTY
             else if en_passant_target s = Some (tc, tr) \<and> (col, row) = (tc, fr) then EMPTY
             else cell s col row)"
    using make_move_cells [OF assms(3,4) pure] by blast
  have fields: "en_passant_target ?s5 = ?ep'" "current_player ?s5 = ?p'"
    "move_history ?s5 = ?ms'"
    by simp_all
  have gen: "(en_passant_target ?s5 \<noteq> None) = double_step s ?m
      \<and> (double_step s ?m \<longrightarrow>
           en_passant_target ?s5
             = Some (fc, fr + (if current_player s = WHITE then 1 else - 1)))"
    if "?m \<in> set (generate_moves s)"
    using generated_double_step [OF that] double_step_between [of s fc fr tc tr] fields(1)
    by auto
  show ?thesis
    using res frame self new at_new pure wf5 cells fields gen by blast
qed

lemma initial_store_ok: "store_ok initial_store"
  by (simp add: store_ok_def initial_store_def)

lemma initial_store_state: "state_at initial_store 10 = Some initial_position"
  by code_simp

lemma e2e4_in_bounds: "move_in_bounds (4, 1, 4, 3)"
  by (simp add: move_in_bounds_def)

lemma initial_e2: "cell initial_position 4 1 = WHITE" "en_passant_target initial_position = None"
  "current_player initial_position = WHITE" "move_history initial_position = []"
  by code_simp+

lemma e2e4_generated: "(4, 1, 4, 3) \<in> set (generate_moves initial_position)"
  by (simp add: initial_moves)

lemma e2e4_double: "double_step initial_position (4, 1, 4, 3)"
  by code_simp
theorem make_move_contract_witness:
  "store_ok initial_store \<and> state_at initial_store 10 = Some initial_position
   \<and> wf_state initial_position \<and> move_in_bounds (4, 1, 4, 3)
   \<and> (4, 1, 4, 3) \<in> set (generate_moves initial_position)
   \<and> double_step initial_position (4, 1, 4, 3)
   \<and> (\<exists>new h' s'. make_move_in_store initial_store 10 (4, 1, 4, 3) = Inr (new, h')
         \<and> state_at h' 10 = Some initial_position
         \<and> state_at h' new = Some s'
         \<and> cell s' 4 3 = WHITE \<and> cell s' 4 1 = EMPTY
         \<and> en_passant_target s' = Some (4, 2)
         \<and> current_player s' = BLACK
         \<and> move_history s' = [(4, 1, 4, 3)])"
proof -
  obtain new h' s' where c:
    "make_move_in_store initial_store 10 (4, 1, 4, 3) = Inr (new, h')"
    "state_at h' 10 = Some initial_position"
    "state_at h' new = Some s'"
    "\<forall>col row. 0 \<le> col \<and> col < 8 \<and> 0 \<le> row \<and> row < 8 \<longrightarrow>
          cell s' col row =
            (if (col, row) = (4, 3) then cell initial_position 4 1
             else if (col, row) = (4, 1) then EMPTY
             else if en_passant_target initial_position = Some (4, 3) \<and> (col, row) = (4, 1)
               then EMPTY
             else cell initial_position col row)"
    "en_passant_target s' = (if \<bar>3 - 1 :: int\<bar> = 2 then Some (4, (1 + 3) div 2) else None)"
    "current_player s' = (if current_player initial_position = WHITE then BLACK else WHITE)"
    "move_history s' = move_history initial_position @ [(4, 1, 4, 3)]"
    using make_move_contract [OF initial_store_ok initial_store_state wf_initial_position
        e2e4_in_bounds]
    by blast
  have "cell s' 4 3 = WHITE" using c(4) [rule_format, of 4 3] initial_e2(1) by simp
  moreover have "cell s' 4 1 = EMPTY" using c(4) [rule_format, of 4 1] by simp
  moreover have "en_passant_target s' = Some (4, 2)" using c(5) by simp
  moreover have "current_player s' = BLACK" using c(6) initial_e2(3) by simp
  moreover have "move_history s' = [(4, 1, 4, 3)]" using c(7) initial_e2(4) by simp
  ultimately show ?thesis
    using c(1,2,3) initial_store_ok initial_store_state wf_initial_position e2e4_in_bounds
      e2e4_generated e2e4_double
    by blast
qed

end
